theory Spec2Isabelle
  imports Main "HOL-Library.Word"
begin

unbundle bit_operations_syntax

section \<open>Machine types\<close>

text \<open>
  The targets are 32-bit Cortex-M4 parts: \<open>size_t\<close> and \<open>uint32_t\<close> are 32-bit,
  \<open>uint64_t\<close> is 64-bit, all unsigned with wrap-around arithmetic.
\<close>

type_synonym uint8_t = "8 word"
type_synonym uint32_t = "32 word"
type_synonym uint64_t = "64 word"
type_synonym size_t = "32 word"

section \<open>msp432e4\_crypto.c\<close>

datatype error_t = NO_ERROR | ERROR_OUT_OF_RESOURCES

text \<open>
  The calls \<open>msp432e4CryptoInit\<close> makes into the RTOS port and the driver library,
  recorded in the order they are made.
\<close>

datatype init_call =
    Call_osCreateMutex
  | Call_SysCtlPeripheralEnable
  | Call_SysCtlPeripheralReset
  | Call_SysCtlPeripheralReady

text \<open>
  \<^verbatim>\<open>while(!SysCtlPeripheralReady(SYSCTL_PERIPH_CCM0)) { }\<close>
  The answer of the \<open>k\<close>-th poll is \<open>ready k\<close>; the loop may spin forever, in
  which case the value is \<open>None\<close>. On exit the value is the number of polls made.
\<close>

partial_function (option) wait_peripheral_ready :: "(nat \<Rightarrow> bool) \<Rightarrow> nat \<Rightarrow> nat option" where
  "wait_peripheral_ready ready k =
     (if \<not> ready k then wait_peripheral_ready ready (Suc k) else Some (Suc k))"

text \<open>
  \<open>msp432e4CryptoInit\<close>. The two things the function gets from its environment are
  parameters: the value \<open>osCreateMutex\<close> returns, and the answers of
  \<open>SysCtlPeripheralReady\<close>. The result is the returned status code together with the
  calls made, or \<open>None\<close> when the function never returns.
\<close>

definition msp432e4CryptoInit :: "bool \<Rightarrow> (nat \<Rightarrow> bool) \<Rightarrow> (error_t \<times> init_call list) option" where
  "msp432e4CryptoInit osCreateMutex SysCtlPeripheralReady =
     (let error = NO_ERROR;
          error = (if \<not> osCreateMutex then ERROR_OUT_OF_RESOURCES else error)
      in if error = NO_ERROR
         then (case wait_peripheral_ready SysCtlPeripheralReady 0 of
                 None \<Rightarrow> None
               | Some polls \<Rightarrow>
                   Some (error,
                     [Call_osCreateMutex, Call_SysCtlPeripheralEnable, Call_SysCtlPeripheralReset]
                       @ replicate polls Call_SysCtlPeripheralReady))
         else Some (error, [Call_osCreateMutex]))"

section \<open>apm32f4xx\_crypto\_hash.c: the HASH peripheral\<close>

text \<open>
  Modelled from the spec: the algorithm selector (a closed enumerated tag) passed to
  \<open>hashProcessData\<close>. The bit patterns of
  \<open>HASH_CTRL_ALGSEL_MD5\<close>, \<open>HASH_CTRL_ALGSEL_SHA1\<close>, \<open>HASH_CTRL_DTYPE_8B\<close> and
  \<open>HASH_CTRL_INITCAL\<close> are declared in a header outside the sources at hand, so the
  selector is kept symbolic.
\<close>

datatype algsel = HASH_CTRL_ALGSEL_SHA1 | HASH_CTRL_ALGSEL_MD5

text \<open>Every access \<open>hashProcessData\<close> makes to the mutex and to the registers.\<close>

datatype hash_access =
    AcquireMutex
  | ReleaseMutex
  | Write_CTRL algsel
  | Set_CTRL_INITCAL
  | Write_CTSWAP nat uint32_t
  | Write_INDATA uint32_t
  | Read_STS
  | Read_CTSWAP nat

text \<open>
  Modelled from the spec: the HASH peripheral itself (hardware, no source). What the
  peripheral computes on a block is the parameter \<open>compress\<close>: given the selected
  algorithm, the seed bank \<open>CTSWAP[6..]\<close>, the current bank \<open>CTSWAP[14..]\<close> and the
  sixteen words of the block, it yields the new state vector. \<open>latency\<close> is the number
  of status polls that still see BUSY after a partial digest was started.
\<close>

record hash_periph =
  compress :: "algsel \<Rightarrow> uint32_t list \<Rightarrow> uint32_t list \<Rightarrow> uint32_t list \<Rightarrow> uint32_t list"
  latency :: nat

record HASH_TypeDef =
  ALGSEL :: algsel
  CTSWAP :: "nat \<Rightarrow> uint32_t"
  INFIFO :: "uint32_t list"
  BUSY :: nat
  accesses :: "hash_access list"

text \<open>
  Modelled from the spec: the digest sizes, whose macros are declared in headers outside
  the sources at hand. The state vector has \<open>MD5_DIGEST_SIZE / 4 = 4\<close> words for
  MD5 and \<open>SHA1_DIGEST_SIZE / 4 = 5\<close> words for SHA-1.
\<close>

definition MD5_DIGEST_SIZE :: nat where
  "MD5_DIGEST_SIZE = 16"

definition SHA1_DIGEST_SIZE :: nat where
  "SHA1_DIGEST_SIZE = 20"

fun state_words :: "algsel \<Rightarrow> nat" where
  "state_words HASH_CTRL_ALGSEL_MD5 = MD5_DIGEST_SIZE div 4"
| "state_words HASH_CTRL_ALGSEL_SHA1 = SHA1_DIGEST_SIZE div 4"

definition hw_log :: "hash_access \<Rightarrow> HASH_TypeDef \<Rightarrow> HASH_TypeDef" where
  "hw_log a hw = hw\<lparr>accesses := accesses hw @ [a]\<rparr>"

text \<open>
  Modelled from the spec: the partial digest computation of the peripheral. It advances
  the state vector by the compression function on the block held in the input FIFO and
  leaves the new state in both banks.
\<close>

definition partial_digest :: "hash_periph \<Rightarrow> HASH_TypeDef \<Rightarrow> HASH_TypeDef" where
  "partial_digest P hw =
     (let w = state_words (ALGSEL hw);
          seed = map (\<lambda>i. CTSWAP hw (6 + i)) [0..<w];
          cur = map (\<lambda>i. CTSWAP hw (14 + i)) [0..<w];
          new = compress P (ALGSEL hw) seed cur (INFIFO hw)
      in hw\<lparr>CTSWAP := (\<lambda>k. if 6 \<le> k \<and> k < 6 + w then new ! (k - 6)
                           else if 14 \<le> k \<and> k < 14 + w then new ! (k - 14)
                           else CTSWAP hw k),
            INFIFO := [],
            BUSY := latency P\<rparr>)"

text \<open>\<^verbatim>\<open>HASH->CTRL = HASH_CTRL_DTYPE_8B | algo;\<close>\<close>

definition write_CTRL :: "algsel \<Rightarrow> HASH_TypeDef \<Rightarrow> HASH_TypeDef" where
  "write_CTRL algo hw = hw_log (Write_CTRL algo) (hw\<lparr>ALGSEL := algo\<rparr>)"

text \<open>
  \<^verbatim>\<open>HASH->CTRL |= HASH_CTRL_INITCAL;\<close>
  Modelled from the spec: the peripheral's reaction. A new message digest calculation
  starts: the input FIFO is emptied.
\<close>

definition set_CTRL_INITCAL :: "HASH_TypeDef \<Rightarrow> HASH_TypeDef" where
  "set_CTRL_INITCAL hw = hw_log Set_CTRL_INITCAL (hw\<lparr>INFIFO := []\<rparr>)"

text \<open>\<^verbatim>\<open>HASH->CTSWAP[k] = v;\<close>\<close>

definition write_CTSWAP :: "nat \<Rightarrow> uint32_t \<Rightarrow> HASH_TypeDef \<Rightarrow> HASH_TypeDef" where
  "write_CTSWAP k v hw = hw_log (Write_CTSWAP k v) (hw\<lparr>CTSWAP := (CTSWAP hw)(k := v)\<rparr>)"

text \<open>
  \<^verbatim>\<open>HASH->INDATA = w;\<close>
  The peripheral's reaction follows the comment in the source: partial digest
  computations are triggered each time the application writes the first word of the next
  block, that is, when the FIFO already holds a whole block.
\<close>

definition write_INDATA :: "hash_periph \<Rightarrow> uint32_t \<Rightarrow> HASH_TypeDef \<Rightarrow> HASH_TypeDef" where
  "write_INDATA P w hw =
     (let hw1 = (if length (INFIFO hw) = 16 then partial_digest P hw else hw)
      in hw_log (Write_INDATA w) (hw1\<lparr>INFIFO := INFIFO hw1 @ [w]\<rparr>))"

text \<open>
  \<^verbatim>\<open>while((HASH->STS & HASH_STS_BUSY) != 0) { }\<close>
  Every evaluation of the loop condition reads STS once.
\<close>

function wait_not_busy :: "HASH_TypeDef \<Rightarrow> HASH_TypeDef" where
  "wait_not_busy hw =
     (if BUSY hw \<noteq> 0 then wait_not_busy (hw_log Read_STS (hw\<lparr>BUSY := BUSY hw - 1\<rparr>))
      else hw_log Read_STS hw)"
  by pat_completeness auto
termination
  by (relation "measure BUSY") (auto simp: hw_log_def)

declare wait_not_busy.simps [simp del]

text \<open>
  Modelled from the spec: the macro \<open>__UNALIGNED_UINT32_READ\<close>, defined outside the
  sources at hand. On the little-endian core \<open>__UNALIGNED_UINT32_READ(data + k)\<close> is
  the word made of the bytes \<open>data[k..k+3]\<close>, least significant first.
\<close>

definition UNALIGNED_UINT32_READ :: "uint8_t list \<Rightarrow> nat \<Rightarrow> uint32_t" where
  "UNALIGNED_UINT32_READ data k =
     ucast (data ! k) OR push_bit 8 (ucast (data ! (k + 1)))
       OR push_bit 16 (ucast (data ! (k + 2))) OR push_bit 24 (ucast (data ! (k + 3)))"

section \<open>apm32f4xx\_crypto\_hash.c: hashProcessData\<close>

text \<open>
  The pair \<open>(data, length)\<close> of the source is one byte list, \<open>length\<close> being its
  length; \<open>h\<close> is the list of the \<open>hLen\<close> state words.

  \<^verbatim>\<open>for(i = 0; i < hLen; i++) { HASH->CTSWAP[6 + i] = h[i]; HASH->CTSWAP[14 + i] = h[i]; }\<close>
\<close>

definition restore_hash_value :: "uint32_t list \<Rightarrow> nat \<Rightarrow> HASH_TypeDef \<Rightarrow> HASH_TypeDef" where
  "restore_hash_value hv hLen hw =
     foldl (\<lambda>s i. write_CTSWAP (14 + i) (hv ! i) (write_CTSWAP (6 + i) (hv ! i) s)) hw [0..<hLen]"

text \<open>
  \<^verbatim>\<open>while(length >= 64) { ... data += 64; length -= 64; }\<close>
  The first word of the block is written, BUSY is awaited, then the fifteen other words.
\<close>

function process_blocks :: "hash_periph \<Rightarrow> uint8_t list \<Rightarrow> HASH_TypeDef \<Rightarrow> HASH_TypeDef" where
  "process_blocks P data hw =
     (if length data \<ge> 64
      then (let hw1 = write_INDATA P (UNALIGNED_UINT32_READ data 0) hw;
                hw2 = wait_not_busy hw1;
                hw3 = foldl (\<lambda>s k. write_INDATA P (UNALIGNED_UINT32_READ data k) s) hw2
                        [4, 8, 12, 16, 20, 24, 28, 32, 36, 40, 44, 48, 52, 56, 60]
            in process_blocks P (drop 64 data) hw3)
      else hw)"
  by pat_completeness auto
termination
  by (relation "measure (\<lambda>(P, data, hw). length data)") auto

declare process_blocks.simps [simp del]

text \<open>\<^verbatim>\<open>for(i = 0; i < hLen; i++) { h[i] = HASH->CTSWAP[14 + i]; }\<close>\<close>

definition save_hash_value :: "nat \<Rightarrow> uint32_t list \<Rightarrow> HASH_TypeDef \<Rightarrow> uint32_t list \<times> HASH_TypeDef" where
  "save_hash_value hLen hv hw =
     foldl (\<lambda>(v, s) i. (v[i := CTSWAP s (14 + i)], hw_log (Read_CTSWAP (14 + i)) s))
       (hv, hw) [0..<hLen]"

definition hashProcessData ::
  "hash_periph \<Rightarrow> algsel \<Rightarrow> uint8_t list \<Rightarrow> uint32_t list \<Rightarrow> nat \<Rightarrow> HASH_TypeDef
     \<Rightarrow> uint32_t list \<times> HASH_TypeDef" where
  "hashProcessData P algo data hv hLen hw =
     (let hw1 = hw_log AcquireMutex hw;
          hw2 = write_CTRL algo hw1;
          hw3 = set_CTRL_INITCAL hw2;
          hw4 = restore_hash_value hv hLen hw3;
          hw5 = process_blocks P data hw4;
          hw6 = write_INDATA P 0 hw5;
          hw7 = wait_not_busy hw6;
          (hv', hw8) = save_hash_value hLen hv hw7
      in (hv', hw_log ReleaseMutex hw8))"

section \<open>apm32f4xx\_crypto\_hash.c: md5Update and sha1Update\<close>

text \<open>
  Modelled from the spec: the session types. \<open>Md5Context\<close> and \<open>Sha1Context\<close> are
  declared outside the sources at hand; the fields the update functions touch are the
  same in both: the state words \<open>h\<close> (4 for MD5, 5 for SHA-1), the 64-byte
  \<open>buffer\<close>, \<open>size\<close> (a \<open>size_t\<close>) and \<open>totalSize\<close> (a \<open>uint64_t\<close>). The field
  \<open>size\<close> is named \<open>size_c\<close> here.
\<close>

record HashContext =
  h :: "uint32_t list"
  buffer :: "uint8_t list"
  size_c :: size_t
  totalSize :: uint64_t

type_synonym Md5Context = HashContext
type_synonym Sha1Context = HashContext

text \<open>
  \<open>osMemcpy(context->buffer + context->size, data, n)\<close> writes outside the 64-byte
  array when \<open>size + n > 64\<close>; C leaves that undefined, the model reports it.
\<close>

datatype fault = BufferOverflow

text \<open>
  One iteration of the loop body of \<open>md5Update\<close> / \<open>sha1Update\<close>, which differ only
  in the selector and in \<open>hLen\<close>. The remaining input \<open>(data, length)\<close> is the list
  \<open>data\<close>. The subtraction \<open>64 - context->size\<close> is a \<open>size_t\<close> subtraction.
\<close>

definition update_iteration ::
  "hash_periph \<Rightarrow> algsel \<Rightarrow> nat \<Rightarrow> HashContext \<times> uint8_t list \<times> HASH_TypeDef
     \<Rightarrow> fault + HashContext \<times> uint8_t list \<times> HASH_TypeDef" where
  "update_iteration P algo hLen s =
     (case s of (ctx, data, hw) \<Rightarrow>
        if size_c ctx = 0 \<and> length data \<ge> 64
        then (let n = length data - (length data mod 64);
                  (hv, hw') = hashProcessData P algo (take n data) (h ctx) hLen hw
              in Inr (ctx\<lparr>h := hv, totalSize := totalSize ctx + of_nat n\<rparr>,
                      drop n data, hw'))
        else (let n = min (length data) (unat (64 - size_c ctx))
              in if unat (size_c ctx) + n > 64 then Inl BufferOverflow
                 else (let ctx1 = ctx
                             \<lparr>buffer := take (unat (size_c ctx)) (buffer ctx)
                                 @ take n data
                                 @ drop (unat (size_c ctx) + n) (buffer ctx),
                              size_c := size_c ctx + of_nat n,
                              totalSize := totalSize ctx + of_nat n\<rparr>
                       in if size_c ctx1 = 64
                          then (let (hv, hw') = hashProcessData P algo
                                       (take (unat (size_c ctx1)) (buffer ctx1))
                                       (h ctx1) hLen hw
                                in Inr (ctx1\<lparr>h := hv, size_c := 0\<rparr>, drop n data, hw'))
                          else Inr (ctx1, drop n data, hw))))"

text \<open>\<^verbatim>\<open>while(length > 0) { ... }\<close>\<close>

function update_loop ::
  "hash_periph \<Rightarrow> algsel \<Rightarrow> nat \<Rightarrow> HashContext \<Rightarrow> uint8_t list \<Rightarrow> HASH_TypeDef
     \<Rightarrow> fault + HashContext \<times> HASH_TypeDef" where
  "update_loop P algo hLen ctx data hw =
     (if length data > 0
      then (case update_iteration P algo hLen (ctx, data, hw) of
              Inl f \<Rightarrow> Inl f
            | Inr (ctx', data', hw') \<Rightarrow> update_loop P algo hLen ctx' data' hw')
      else Inr (ctx, hw))"
  by pat_completeness auto

definition md5Update ::
  "hash_periph \<Rightarrow> Md5Context \<Rightarrow> uint8_t list \<Rightarrow> HASH_TypeDef \<Rightarrow> fault + Md5Context \<times> HASH_TypeDef" where
  "md5Update P ctx data hw =
     update_loop P HASH_CTRL_ALGSEL_MD5 (MD5_DIGEST_SIZE div 4) ctx data hw"

definition sha1Update ::
  "hash_periph \<Rightarrow> Sha1Context \<Rightarrow> uint8_t list \<Rightarrow> HASH_TypeDef \<Rightarrow> fault + Sha1Context \<times> HASH_TypeDef" where
  "sha1Update P ctx data hw =
     update_loop P HASH_CTRL_ALGSEL_SHA1 (SHA1_DIGEST_SIZE div 4) ctx data hw"

text \<open>
  The loop of \<open>update_loop\<close> run for at most \<open>fuel\<close> iterations: \<open>None\<close> when the
  loop condition still holds after that many iterations.
\<close>

fun update_loop_bounded ::
  "nat \<Rightarrow> hash_periph \<Rightarrow> algsel \<Rightarrow> nat \<Rightarrow> HashContext \<Rightarrow> uint8_t list \<Rightarrow> HASH_TypeDef
     \<Rightarrow> (fault + HashContext \<times> HASH_TypeDef) option" where
  "update_loop_bounded 0 P algo hLen ctx data hw =
     (if length data > 0 then None else Some (Inr (ctx, hw)))"
| "update_loop_bounded (Suc fuel) P algo hLen ctx data hw =
     (if length data > 0
      then (case update_iteration P algo hLen (ctx, data, hw) of
              Inl f \<Rightarrow> Some (Inl f)
            | Inr (ctx', data', hw') \<Rightarrow> update_loop_bounded fuel P algo hLen ctx' data' hw')
      else Some (Inr (ctx, hw)))"

text \<open>A caller making one update call per chunk, in order, on the same session.\<close>

fun update_calls ::
  "(HashContext \<Rightarrow> uint8_t list \<Rightarrow> HASH_TypeDef \<Rightarrow> fault + HashContext \<times> HASH_TypeDef)
     \<Rightarrow> HashContext \<Rightarrow> uint8_t list list \<Rightarrow> HASH_TypeDef \<Rightarrow> fault + HashContext \<times> HASH_TypeDef" where
  "update_calls update ctx [] hw = Inr (ctx, hw)"
| "update_calls update ctx (chunk # chunks) hw =
     (case update ctx chunk hw of
        Inl f \<Rightarrow> Inl f
      | Inr (ctx', hw') \<Rightarrow> update_calls update ctx' chunks hw')"

section \<open>Specification-level notions\<close>

text \<open>The sixteen words of the block at the head of \<open>data\<close>, as written to INDATA.\<close>

definition block_words :: "uint8_t list \<Rightarrow> uint32_t list" where
  "block_words data = map (UNALIGNED_UINT32_READ data)
     [0, 4, 8, 12, 16, 20, 24, 28, 32, 36, 40, 44, 48, 52, 56, 60]"

text \<open>
  The block engine as a function of (algorithm, state, blocks): the state vector after
  the whole blocks of \<open>data\<close> went through the peripheral, starting from \<open>st\<close> in both
  banks. A trailing partial block is ignored.
\<close>

function hash_engine :: "hash_periph \<Rightarrow> algsel \<Rightarrow> uint32_t list \<Rightarrow> uint8_t list \<Rightarrow> uint32_t list" where
  "hash_engine P algo st data =
     (if 64 \<le> length data
      then hash_engine P algo
             (map (\<lambda>i. compress P algo st st (block_words data) ! i) [0..<state_words algo])
             (drop 64 data)
      else st)"
  by pat_completeness auto
termination
  by (relation "measure (\<lambda>(P, algo, st, data). length data)") auto

declare hash_engine.simps [simp del]

text \<open>The bytes a session holds buffered: the first \<open>size\<close> bytes of \<open>buffer\<close>.\<close>

definition buffered :: "HashContext \<Rightarrow> uint8_t list" where
  "buffered ctx = take (unat (size_c ctx)) (buffer ctx)"

text \<open>
  A session as the type declarations and the initialisation leave it: a 64-byte buffer,
  \<open>hLen\<close> state words, and fewer than 64 bytes buffered.
\<close>

definition valid_context :: "nat \<Rightarrow> HashContext \<Rightarrow> bool" where
  "valid_context hLen ctx \<longleftrightarrow> length (h ctx) = hLen \<and> length (buffer ctx) = 64 \<and> size_c ctx < 64"

text \<open>
  What a session will have absorbed once \<open>data\<close> is consumed, in terms of the block
  engine: the state after every whole block of (buffered bytes followed by \<open>data\<close>),
  and the trailing partial block left over.
\<close>

definition absorbed_state :: "hash_periph \<Rightarrow> algsel \<Rightarrow> HashContext \<Rightarrow> uint8_t list \<Rightarrow> uint32_t list" where
  "absorbed_state P algo ctx data = hash_engine P algo (h ctx) (buffered ctx @ data)"

definition absorbed_rest :: "HashContext \<Rightarrow> uint8_t list \<Rightarrow> uint8_t list" where
  "absorbed_rest ctx data =
     drop (length (buffered ctx @ data) - length (buffered ctx @ data) mod 64) (buffered ctx @ data)"

text \<open>The number of \<open>hashProcessData\<close> invocations recorded in a register trace.\<close>

definition invocations :: "HASH_TypeDef \<Rightarrow> nat" where
  "invocations hw = length (filter (\<lambda>a. a = AcquireMutex) (accesses hw))"

text \<open>
  The two register banks as lists of the selected algorithm's width, and the state
  vector the current bank holds once a block pending in the FIFO has been digested.
\<close>

definition seed_bank :: "HASH_TypeDef \<Rightarrow> uint32_t list" where
  "seed_bank hw = map (\<lambda>i. CTSWAP hw (6 + i)) [0..<state_words (ALGSEL hw)]"

definition current_bank :: "HASH_TypeDef \<Rightarrow> uint32_t list" where
  "current_bank hw = map (\<lambda>i. CTSWAP hw (14 + i)) [0..<state_words (ALGSEL hw)]"

definition after_pending :: "hash_periph \<Rightarrow> HASH_TypeDef \<Rightarrow> uint32_t list" where
  "after_pending P hw =
     (if length (INFIFO hw) = 16 then current_bank (partial_digest P hw) else current_bank hw)"

text \<open>The sixteen writes of one iteration of the block loop.\<close>

definition feed_block :: "hash_periph \<Rightarrow> uint8_t list \<Rightarrow> HASH_TypeDef \<Rightarrow> HASH_TypeDef" where
  "feed_block P data hw =
     foldl (\<lambda>s k. write_INDATA P (UNALIGNED_UINT32_READ data k) s)
       (wait_not_busy (write_INDATA P (UNALIGNED_UINT32_READ data 0) hw))
       [4, 8, 12, 16, 20, 24, 28, 32, 36, 40, 44, 48, 52, 56, 60]"

text \<open>The accesses of the data phase: writes to INDATA and polls of STS.\<close>

fun is_data_access :: "hash_access \<Rightarrow> bool" where
  "is_data_access (Write_INDATA w) = True"
| "is_data_access Read_STS = True"
| "is_data_access _ = False"

text \<open>The session an update call returns, if it returns one.\<close>

definition session_of :: "fault + HashContext \<times> HASH_TypeDef \<Rightarrow> HashContext option" where
  "session_of r = (case r of Inl f \<Rightarrow> None | Inr (ctx, hw) \<Rightarrow> Some ctx)"

text \<open>
  One call of \<open>hashProcessData\<close>: its arguments, and the peripheral as the call finds
  it.
\<close>

record hash_call =
  call_periph :: hash_periph
  call_algo :: algsel
  call_data :: "uint8_t list"
  call_h :: "uint32_t list"
  call_hLen :: nat
  call_hw :: HASH_TypeDef

text \<open>The accesses one invocation makes: what the call appends to the access trace.\<close>

definition invocation_trace :: "hash_call \<Rightarrow> hash_access list" where
  "invocation_trace c =
     drop (length (accesses (call_hw c)))
       (accesses (snd (hashProcessData (call_periph c) (call_algo c) (call_data c) (call_h c)
          (call_hLen c) (call_hw c))))"

text \<open>The accesses of an execution context that makes the calls one after the other.\<close>

definition thread_trace :: "hash_call list \<Rightarrow> hash_access list" where
  "thread_trace calls = concat (map invocation_trace calls)"

text \<open>
  An execution of several contexts on the one peripheral: the accesses in the order in
  which they happen, each with the context that makes it. \<open>thread_accesses t es\<close> is
  what context \<open>t\<close> does in \<open>es\<close>.
\<close>

type_synonym thread_id = nat
type_synonym event = "thread_id \<times> hash_access"

definition thread_accesses :: "thread_id \<Rightarrow> event list \<Rightarrow> hash_access list" where
  "thread_accesses t es = map snd (filter (\<lambda>e. fst e = t) es)"

text \<open>
  \<open>es\<close> interleaves the contexts \<open>threads\<close>, context \<open>t\<close> making the calls
  \<open>threads ! t\<close>: every event is made by one of the contexts, and what context \<open>t\<close>
  has done is an initial part of the accesses of its calls, in program order. A context
  may be stopped anywhere, also in the middle of an invocation.
\<close>

definition interleaving :: "event list \<Rightarrow> hash_call list list \<Rightarrow> bool" where
  "interleaving es threads \<longleftrightarrow>
     list_all (\<lambda>e. fst e < length threads) es
     \<and> list_all (\<lambda>t. take (length (thread_accesses t es)) (thread_trace (threads ! t)) = thread_accesses t es)
         [0..<length threads]"

text \<open>
  Modelled from the spec: the mutex. \<open>osAcquireMutex\<close> and \<open>osReleaseMutex\<close> belong
  to the operating system port, which is not among the sources at hand. The contract:
  acquire blocks the calling execution context until no other context holds the lock;
  release makes the resource available to the next waiter. So an acquisition makes the
  caller the holder, a release leaves the mutex without holder, and in an execution
  that respects the mutex an acquisition happens only while no other context is the
  holder. \<open>respects_mutex m es\<close> checks the events \<open>es\<close>, \<open>m\<close> being the holder before
  them; \<open>holder es\<close> is the holder after the events \<open>es\<close>, from a free mutex.
\<close>

fun mutex_step :: "thread_id option \<Rightarrow> event \<Rightarrow> thread_id option" where
  "mutex_step m (t, AcquireMutex) = Some t"
| "mutex_step m (t, ReleaseMutex) = None"
| "mutex_step m (t, a) = m"

definition holder :: "event list \<Rightarrow> thread_id option" where
  "holder es = foldl mutex_step None es"

fun respects_mutex :: "thread_id option \<Rightarrow> event list \<Rightarrow> bool" where
  "respects_mutex m [] = True"
| "respects_mutex m (e # es) =
     ((snd e = AcquireMutex \<longrightarrow> m = None \<or> m = Some (fst e)) \<and> respects_mutex (mutex_step m e) es)"

text \<open>The accesses to the engine: everything but the two mutex operations.\<close>

fun is_engine_access :: "hash_access \<Rightarrow> bool" where
  "is_engine_access AcquireMutex = False"
| "is_engine_access ReleaseMutex = False"
| "is_engine_access _ = True"

text \<open>
  The critical section of an invocation runs from its \<open>osAcquireMutex\<close> to its
  \<open>osReleaseMutex\<close>. \<open>critical t es\<close>: after the events \<open>es\<close> context \<open>t\<close> is
  inside a critical section, its last mutex operation being an acquisition.
\<close>

fun section_step :: "bool \<Rightarrow> hash_access \<Rightarrow> bool" where
  "section_step b AcquireMutex = True"
| "section_step b ReleaseMutex = False"
| "section_step b a = b"

definition critical :: "thread_id \<Rightarrow> event list \<Rightarrow> bool" where
  "critical t es = foldl section_step False (thread_accesses t es)"

text \<open>
  \<open>bracketed b as\<close>: a context that is inside (\<open>b\<close>) or outside a critical section
  and goes on with the accesses \<open>as\<close> acquires the mutex only outside a critical
  section, and does everything else inside one.
\<close>

fun bracketed :: "bool \<Rightarrow> hash_access list \<Rightarrow> bool" where
  "bracketed b [] = True"
| "bracketed b (a # as) = ((if a = AcquireMutex then \<not> b else b) \<and> bracketed (section_step b a) as)"

section \<open>Concrete inputs\<close>

text \<open>
  A peripheral whose compression function adds the block words to the current state, and
  that stays busy for two polls; the peripheral at rest; an MD5 and a SHA-1 session as
  initialisation leaves them, and the MD5 session with 63, 64 and 65 as \<open>size\<close>.
\<close>

definition example_periph :: hash_periph where
  "example_periph = \<lparr>compress = (\<lambda>algo seed cur blk. map2 (+) cur blk), latency = 2\<rparr>"

definition idle_hw :: HASH_TypeDef where
  "idle_hw = \<lparr>ALGSEL = HASH_CTRL_ALGSEL_SHA1, CTSWAP = (\<lambda>k. 0), INFIFO = [], BUSY = 0, accesses = []\<rparr>"

definition fresh_md5 :: Md5Context where
  "fresh_md5 = \<lparr>h = [0x67452301, 0xEFCDAB89, 0x98BADCFE, 0x10325476],
                 buffer = replicate 64 0, size_c = 0, totalSize = 0\<rparr>"

definition fresh_sha1 :: Sha1Context where
  "fresh_sha1 = \<lparr>h = [0x67452301, 0xEFCDAB89, 0x98BADCFE, 0x10325476, 0xC3D2E1F0],
                  buffer = replicate 64 0, size_c = 0, totalSize = 0\<rparr>"

definition nearly_full_md5 :: Md5Context where
  "nearly_full_md5 = fresh_md5\<lparr>size_c := 63, totalSize := 63\<rparr>"

definition full_md5 :: Md5Context where
  "full_md5 = fresh_md5\<lparr>size_c := 64, totalSize := 64\<rparr>"

definition overfull_md5 :: Md5Context where
  "overfull_md5 = fresh_md5\<lparr>size_c := 65, totalSize := 65\<rparr>"

text \<open>
  Modelled from the spec: a finalized session. The finalisation is not among the sources
  at hand; after it the state holds the final digest. The session below holds the MD5
  digest of the empty message in \<open>h\<close> and the padded last block in \<open>buffer\<close>. The
  context has no field that records finalisation.
\<close>

definition finalized_md5 :: Md5Context where
  "finalized_md5 = \<lparr>h = [0xD98C1DD4, 0x04B2008F, 0x980980E9, 0x7E42F8EC],
                     buffer = 0x80 # replicate 63 0, size_c = 56, totalSize = 56\<rparr>"

text \<open>Two ways of cutting input into chunks.\<close>

definition three_chunks :: "uint8_t list list" where
  "three_chunks = [replicate 10 0x61, [], replicate 70 0x62]"

definition one_and_63 :: "uint8_t list list" where
  "one_and_63 = [[0x61], replicate 63 0x61]"

text \<open>
  Two contexts that each make one call of \<open>hashProcessData\<close> on a block of 64 bytes;
  the execution in which the second context runs after the first, and one in which the
  second context runs in the middle of the invocation of the first.
\<close>

definition example_call :: hash_call where
  "example_call = \<lparr>call_periph = example_periph, call_algo = HASH_CTRL_ALGSEL_MD5,
       call_data = replicate 64 0x61, call_h = [1, 2, 3, 4], call_hLen = 4, call_hw = idle_hw\<rparr>"

definition two_threads :: "hash_call list list" where
  "two_threads = [[example_call], [example_call]]"

definition serial_runs :: "event list" where
  "serial_runs = map (Pair 0) (invocation_trace example_call) @ map (Pair 1) (invocation_trace example_call)"

definition overlapping_runs :: "event list" where
  "overlapping_runs = map (Pair 0) (take 20 (invocation_trace example_call))
     @ map (Pair 1) (invocation_trace example_call)
     @ map (Pair 0) (drop 20 (invocation_trace example_call))"

section \<open>The peripheral and hashProcessData\<close>

lemma state_words_le: "state_words algo \<le> 8"
  by (cases algo) (simp_all add: MD5_DIGEST_SIZE_def SHA1_DIGEST_SIZE_def)

lemma hw_log_fields [simp]:
  "ALGSEL (hw_log a hw) = ALGSEL hw"
  "CTSWAP (hw_log a hw) = CTSWAP hw"
  "INFIFO (hw_log a hw) = INFIFO hw"
  "BUSY (hw_log a hw) = BUSY hw"
  "accesses (hw_log a hw) = accesses hw @ [a]"
  by (simp_all add: hw_log_def)

lemma hw_log_banks [simp]:
  "seed_bank (hw_log a hw) = seed_bank hw"
  "current_bank (hw_log a hw) = current_bank hw"
  by (simp_all add: seed_bank_def current_bank_def)

lemma wait_not_busy_ALGSEL [simp]: "ALGSEL (wait_not_busy hw) = ALGSEL hw"
  by (induction hw rule: wait_not_busy.induct) (subst wait_not_busy.simps, simp)

lemma wait_not_busy_CTSWAP [simp]: "CTSWAP (wait_not_busy hw) = CTSWAP hw"
  by (induction hw rule: wait_not_busy.induct) (subst wait_not_busy.simps, simp)

lemma wait_not_busy_INFIFO [simp]: "INFIFO (wait_not_busy hw) = INFIFO hw"
  by (induction hw rule: wait_not_busy.induct) (subst wait_not_busy.simps, simp)

lemma wait_not_busy_banks [simp]:
  "seed_bank (wait_not_busy hw) = seed_bank hw"
  "current_bank (wait_not_busy hw) = current_bank hw"
  by (simp_all add: seed_bank_def current_bank_def)

lemma partial_digest_fields [simp]:
  "ALGSEL (partial_digest P hw) = ALGSEL hw"
  "INFIFO (partial_digest P hw) = []"
  "accesses (partial_digest P hw) = accesses hw"
  by (simp_all add: partial_digest_def Let_def)

lemma partial_digest_banks:
  "current_bank (partial_digest P hw) =
     map (\<lambda>i. compress P (ALGSEL hw) (seed_bank hw) (current_bank hw) (INFIFO hw) ! i)
       [0..<state_words (ALGSEL hw)]"
  "seed_bank (partial_digest P hw) = current_bank (partial_digest P hw)"
  using state_words_le[of "ALGSEL hw"]
  by (auto simp: partial_digest_def Let_def seed_bank_def current_bank_def)

lemma write_INDATA_fields [simp]:
  "ALGSEL (write_INDATA P w hw) = ALGSEL hw"
  "accesses (write_INDATA P w hw) = accesses hw @ [Write_INDATA w]"
  by (simp_all add: write_INDATA_def Let_def)

lemma write_INDATA_filling:
  assumes "length (INFIFO hw) \<noteq> 16"
  shows "INFIFO (write_INDATA P w hw) = INFIFO hw @ [w]"
    and "CTSWAP (write_INDATA P w hw) = CTSWAP hw"
  using assms by (simp_all add: write_INDATA_def)

lemma write_INDATA_filling_banks:
  assumes "length (INFIFO hw) \<noteq> 16"
  shows "seed_bank (write_INDATA P w hw) = seed_bank hw"
    and "current_bank (write_INDATA P w hw) = current_bank hw"
  using assms by (simp_all add: seed_bank_def current_bank_def write_INDATA_filling)

lemma write_INDATA_first:
  assumes "INFIFO hw = [] \<or> length (INFIFO hw) = 16" and "seed_bank hw = current_bank hw"
  shows "INFIFO (write_INDATA P w hw) = [w]"
    and "current_bank (write_INDATA P w hw) = after_pending P hw"
    and "seed_bank (write_INDATA P w hw) = after_pending P hw"
  using assms
  by (auto simp: write_INDATA_def after_pending_def Let_def seed_bank_def current_bank_def
      partial_digest_banks[unfolded seed_bank_def current_bank_def, simplified])

lemma write_words_filling:
  assumes "length (INFIFO hw) + length ws \<le> 16"
  shows "INFIFO (foldl (\<lambda>s w. write_INDATA P w s) hw ws) = INFIFO hw @ ws
       \<and> CTSWAP (foldl (\<lambda>s w. write_INDATA P w s) hw ws) = CTSWAP hw
       \<and> ALGSEL (foldl (\<lambda>s w. write_INDATA P w s) hw ws) = ALGSEL hw"
  using assms
proof (induction ws arbitrary: hw)
  case Nil
  then show ?case by simp
next
  case (Cons w ws)
  then have ne: "length (INFIFO hw) \<noteq> 16" by simp
  have "length (INFIFO (write_INDATA P w hw)) + length ws \<le> 16"
    using Cons.prems by (simp add: write_INDATA_filling[OF ne])
  from Cons.IH[OF this] show ?case
    by (simp add: write_INDATA_filling[OF ne])
qed

lemma process_blocks_unfold:
  "process_blocks P data hw =
     (if 64 \<le> length data then process_blocks P (drop 64 data) (feed_block P data hw) else hw)"
  by (subst process_blocks.simps) (simp only: Let_def feed_block_def)

lemma feed_block_state:
  assumes "INFIFO hw = [] \<or> length (INFIFO hw) = 16" and "seed_bank hw = current_bank hw"
  shows "INFIFO (feed_block P data hw) = block_words data"
    and "current_bank (feed_block P data hw) = after_pending P hw"
    and "seed_bank (feed_block P data hw) = after_pending P hw"
    and "ALGSEL (feed_block P data hw) = ALGSEL hw"
proof -
  define hw2 where "hw2 = wait_not_busy (write_INDATA P (UNALIGNED_UINT32_READ data 0) hw)"
  define ws where "ws = map (UNALIGNED_UINT32_READ data)
      [4, 8, 12, 16, 20, 24, 28, 32, 36, 40, 44, (48::nat), 52, 56, 60]"
  have fb: "feed_block P data hw = foldl (\<lambda>s w. write_INDATA P w s) hw2 ws"
    unfolding feed_block_def hw2_def ws_def foldl_map ..
  have f2: "INFIFO hw2 = [UNALIGNED_UINT32_READ data 0]"
    and c2: "current_bank hw2 = after_pending P hw"
    and s2: "seed_bank hw2 = after_pending P hw"
    and a2: "ALGSEL hw2 = ALGSEL hw"
    using write_INDATA_first[OF assms] by (simp_all add: hw2_def)
  have "length (INFIFO hw2) + length ws \<le> 16" by (simp add: f2 ws_def)
  from write_words_filling[OF this, of P]
  have r: "INFIFO (feed_block P data hw) = INFIFO hw2 @ ws"
       "CTSWAP (feed_block P data hw) = CTSWAP hw2"
       "ALGSEL (feed_block P data hw) = ALGSEL hw2"
    by (simp_all add: fb)
  show "INFIFO (feed_block P data hw) = block_words data"
    by (simp add: r f2 ws_def block_words_def)
  show "ALGSEL (feed_block P data hw) = ALGSEL hw" by (simp add: r a2)
  show "current_bank (feed_block P data hw) = after_pending P hw"
    using c2 by (simp add: current_bank_def r a2)
  show "seed_bank (feed_block P data hw) = after_pending P hw"
    using s2 by (simp add: seed_bank_def r a2)
qed

lemma after_pending_feed_block:
  assumes "INFIFO hw = [] \<or> length (INFIFO hw) = 16" and "seed_bank hw = current_bank hw"
  shows "after_pending P (feed_block P data hw) =
           map (\<lambda>i. compress P (ALGSEL hw) (after_pending P hw) (after_pending P hw) (block_words data) ! i)
             [0..<state_words (ALGSEL hw)]"
  using feed_block_state[OF assms, of P data]
  by (simp add: after_pending_def[of P "feed_block P data hw"] partial_digest_banks block_words_def)

lemma process_blocks_state:
  assumes "INFIFO hw = [] \<or> length (INFIFO hw) = 16" and "seed_bank hw = current_bank hw"
  shows "after_pending P (process_blocks P data hw) = hash_engine P (ALGSEL hw) (after_pending P hw) data
       \<and> ALGSEL (process_blocks P data hw) = ALGSEL hw
       \<and> seed_bank (process_blocks P data hw) = current_bank (process_blocks P data hw)
       \<and> (INFIFO (process_blocks P data hw) = [] \<or> length (INFIFO (process_blocks P data hw)) = 16)"
  using assms
proof (induction P data hw rule: process_blocks.induct)
  case (1 P data hw)
  show ?case
  proof (cases "64 \<le> length data")
    case False
    then show ?thesis using "1.prems"
      by (simp add: process_blocks_unfold[of P data hw] hash_engine.simps[of P _ _ data])
  next
    case True
    note st = feed_block_state[OF "1.prems", of P data]
    have a: "INFIFO (feed_block P data hw) = [] \<or> length (INFIFO (feed_block P data hw)) = 16"
      by (simp add: st block_words_def)
    have b: "seed_bank (feed_block P data hw) = current_bank (feed_block P data hw)"
      by (simp add: st)
    have ih: "after_pending P (process_blocks P (drop 64 data) (feed_block P data hw)) =
        hash_engine P (ALGSEL (feed_block P data hw)) (after_pending P (feed_block P data hw)) (drop 64 data)
       \<and> ALGSEL (process_blocks P (drop 64 data) (feed_block P data hw)) = ALGSEL (feed_block P data hw)
       \<and> seed_bank (process_blocks P (drop 64 data) (feed_block P data hw)) = current_bank (process_blocks P (drop 64 data) (feed_block P data hw))
       \<and> (INFIFO (process_blocks P (drop 64 data) (feed_block P data hw)) = [] \<or> length (INFIFO (process_blocks P (drop 64 data) (feed_block P data hw))) = 16)"
      using "1.IH"[OF True refl refl refl] a b unfolding feed_block_def by blast
    show ?thesis
      using True ih
      by (simp add: process_blocks_unfold[of P data hw] hash_engine.simps[of P _ _ data]
          after_pending_feed_block[OF "1.prems"] st)
  qed
qed

lemma restore_hash_value_Suc:
  "restore_hash_value hv (Suc n) hw =
     write_CTSWAP (14 + n) (hv ! n) (write_CTSWAP (6 + n) (hv ! n) (restore_hash_value hv n hw))"
  by (simp add: restore_hash_value_def)

lemma write_CTSWAP_fields [simp]:
  "ALGSEL (write_CTSWAP k v hw) = ALGSEL hw"
  "INFIFO (write_CTSWAP k v hw) = INFIFO hw"
  "BUSY (write_CTSWAP k v hw) = BUSY hw"
  "CTSWAP (write_CTSWAP k v hw) = (CTSWAP hw)(k := v)"
  "accesses (write_CTSWAP k v hw) = accesses hw @ [Write_CTSWAP k v]"
  by (simp_all add: write_CTSWAP_def)

lemma restore_hash_value_0 [simp]: "restore_hash_value hv 0 hw = hw"
  by (simp add: restore_hash_value_def)

lemma restore_hash_value_ALGSEL [simp]: "ALGSEL (restore_hash_value hv n hw) = ALGSEL hw"
  by (induction n) (simp_all add: restore_hash_value_Suc)

lemma restore_hash_value_INFIFO [simp]: "INFIFO (restore_hash_value hv n hw) = INFIFO hw"
  by (induction n) (simp_all add: restore_hash_value_Suc)

lemma restore_hash_value_BUSY [simp]: "BUSY (restore_hash_value hv n hw) = BUSY hw"
  by (induction n) (simp_all add: restore_hash_value_Suc)

lemma restore_hash_value_accesses:
  "accesses (restore_hash_value hv n hw) =
     accesses hw @ concat (map (\<lambda>i. [Write_CTSWAP (6 + i) (hv ! i), Write_CTSWAP (14 + i) (hv ! i)]) [0..<n])"
  by (induction n) (simp_all add: restore_hash_value_Suc)

lemma restore_hash_value_CTSWAP:
  assumes "n \<le> 8"
  shows "CTSWAP (restore_hash_value hv n hw) k =
           (if 6 \<le> k \<and> k < 6 + n then hv ! (k - 6)
            else if 14 \<le> k \<and> k < 14 + n then hv ! (k - 14)
            else CTSWAP hw k)"
  using assms
proof (induction n)
  case 0
  then show ?case by auto
next
  case (Suc n)
  then have "n \<le> 8" "n < 8" by simp_all
  with Suc.IH show ?case
    by (auto simp: restore_hash_value_Suc less_Suc_eq)
qed

lemma restore_hash_value_banks:
  assumes "state_words (ALGSEL hw) = n" and "length hv = n"
  shows "seed_bank (restore_hash_value hv n hw) = hv"
    and "current_bank (restore_hash_value hv n hw) = hv"
proof -
  have n8: "n \<le> 8" using state_words_le[of "ALGSEL hw"] assms(1) by simp
  show "seed_bank (restore_hash_value hv n hw) = hv"
    using assms by (auto simp: seed_bank_def restore_hash_value_CTSWAP[OF n8] intro!: nth_equalityI)
  show "current_bank (restore_hash_value hv n hw) = hv"
    using assms n8 by (auto simp: current_bank_def restore_hash_value_CTSWAP[OF n8] intro!: nth_equalityI)
qed

lemma save_hash_value_Suc:
  "save_hash_value (Suc n) hv hw =
     (let (v, s) = save_hash_value n hv hw
      in (v[n := CTSWAP s (14 + n)], hw_log (Read_CTSWAP (14 + n)) s))"
  by (simp add: save_hash_value_def split_beta)

lemma save_hash_value_0 [simp]: "save_hash_value 0 hv hw = (hv, hw)"
  by (simp add: save_hash_value_def)

lemma save_hash_value_snd:
  "snd (save_hash_value n hv hw) =
     hw\<lparr>accesses := accesses hw @ map (\<lambda>i. Read_CTSWAP (14 + i)) [0..<n]\<rparr>"
  by (induction n) (simp_all add: save_hash_value_Suc split_beta hw_log_def)

lemma save_hash_value_fst:
  assumes "n \<le> length hv"
  shows "fst (save_hash_value n hv hw) = map (\<lambda>i. CTSWAP hw (14 + i)) [0..<n] @ drop n hv"
  using assms
proof (induction n)
  case 0
  then show ?case by simp
next
  case (Suc n)
  then have "fst (save_hash_value n hv hw) = map (\<lambda>i. CTSWAP hw (14 + i)) [0..<n] @ drop n hv"
    by simp
  moreover have "CTSWAP (snd (save_hash_value n hv hw)) = CTSWAP hw"
    by (simp add: save_hash_value_snd)
  ultimately show ?case using Suc.prems
    by (simp add: save_hash_value_Suc split_beta list_update_append upd_conv_take_nth_drop
        Cons_nth_drop_Suc flip: drop_Suc)
qed

lemma hash_engine_length:
  "length st = state_words algo \<Longrightarrow> length (hash_engine P algo st data) = state_words algo"
  by (induction P algo st data rule: hash_engine.induct) (subst hash_engine.simps, simp)

lemma hash_engine_short: "length data < 64 \<Longrightarrow> hash_engine P algo st data = st"
  by (subst hash_engine.simps) simp

lemma hash_engine_append:
  "64 dvd length a \<Longrightarrow> hash_engine P algo st (a @ b) = hash_engine P algo (hash_engine P algo st a) b"
proof (induction P algo st a rule: hash_engine.induct)
  case (1 P algo st a)
  show ?case
  proof (cases "64 \<le> length a")
    case True
    then have bw: "block_words (a @ b) = block_words a"
      by (auto simp add: block_words_def UNALIGNED_UINT32_READ_def nth_append)
    have "64 dvd length (drop 64 a)" using "1.prems" True by (simp add: dvd_diff_nat)
    from "1.IH"[OF True this] True show ?thesis
      by (simp add: hash_engine.simps[of P algo st a] hash_engine.simps[of P algo st "a @ b"] bw)
  next
    case False
    with "1.prems" have "a = []" by (auto dest: dvd_imp_le)
    then show ?thesis by (simp add: hash_engine_short)
  qed
qed

lemma wait_not_busy_accesses:
  "accesses (wait_not_busy hw) = accesses hw @ replicate (Suc (BUSY hw)) Read_STS"
proof (induction hw rule: wait_not_busy.induct)
  case (1 hw)
  show ?case
  proof (cases "BUSY hw = 0")
    case True
    then show ?thesis by (subst wait_not_busy.simps) simp
  next
    case False
    then obtain k where k: "BUSY hw = Suc k" by (cases "BUSY hw") auto
    from "1.IH"[OF False] k show ?thesis
      by (subst wait_not_busy.simps) (simp add: replicate_app_Cons_same)
  qed
qed

lemma write_words_accesses:
  "accesses (foldl (\<lambda>s w. write_INDATA P w s) hw ws) = accesses hw @ map Write_INDATA ws"
  by (induction ws arbitrary: hw) simp_all

lemma feed_block_accesses:
  "\<exists>feed. accesses (feed_block P data hw) = accesses hw @ feed
      \<and> list_all is_data_access feed
      \<and> length (filter (\<lambda>a. a \<noteq> Read_STS) feed) = 16"
proof -
  define hw1 where "hw1 = write_INDATA P (UNALIGNED_UINT32_READ data 0) hw"
  define ws where "ws = map (UNALIGNED_UINT32_READ data)
      [4, 8, 12, 16, 20, 24, 28, 32, 36, 40, 44, (48::nat), 52, 56, 60]"
  have fb: "feed_block P data hw = foldl (\<lambda>s w. write_INDATA P w s) (wait_not_busy hw1) ws"
    unfolding feed_block_def hw1_def ws_def foldl_map ..
  have "accesses (feed_block P data hw) =
      accesses hw @ (Write_INDATA (UNALIGNED_UINT32_READ data 0) # replicate (Suc (BUSY hw1)) Read_STS
        @ map Write_INDATA ws)"
    by (simp add: fb write_words_accesses wait_not_busy_accesses hw1_def)
  moreover have "list_all is_data_access (Write_INDATA (UNALIGNED_UINT32_READ data 0) # replicate (Suc (BUSY hw1)) Read_STS
        @ map Write_INDATA ws)"
    by (auto simp add: list_all_iff)
  moreover have "length (filter (\<lambda>a. a \<noteq> Read_STS) (Write_INDATA (UNALIGNED_UINT32_READ data 0) # replicate (Suc (BUSY hw1)) Read_STS
        @ map Write_INDATA ws)) = 16"
    by (simp add: ws_def)
  ultimately show ?thesis by blast
qed

lemma process_blocks_accesses:
  "\<exists>feed. accesses (process_blocks P data hw) = accesses hw @ feed
      \<and> list_all is_data_access feed
      \<and> length (filter (\<lambda>a. a \<noteq> Read_STS) feed) = 16 * (length data div 64)"
proof (induction P data hw rule: process_blocks.induct)
  case (1 P data hw)
  show ?case
  proof (cases "64 \<le> length data")
    case False
    then show ?thesis by (simp add: process_blocks_unfold[of P data hw])
  next
    case True
    obtain f1 where f1: "accesses (feed_block P data hw) = accesses hw @ f1"
      "list_all is_data_access f1" "length (filter (\<lambda>a. a \<noteq> Read_STS) f1) = 16"
      using feed_block_accesses by blast
    obtain f2 where f2: "accesses (process_blocks P (drop 64 data) (feed_block P data hw))
          = accesses (feed_block P data hw) @ f2"
      "list_all is_data_access f2"
      "length (filter (\<lambda>a. a \<noteq> Read_STS) f2) = 16 * (length (drop 64 data) div 64)"
      using "1.IH"[OF True refl refl refl] unfolding feed_block_def by blast
    have "(length data - 64) div 64 + 1 = length data div 64"
      using True by (simp add: le_div_geq)
    then have "16 + 16 * ((length data - 64) div 64) = 16 * (length data div 64)"
      by (metis add.commute mult_Suc_right Suc_eq_plus1)
    with f1 f2 True show ?thesis
      by (intro exI[of _ "f1 @ f2"]) (simp add: process_blocks_unfold[of P data hw])
  qed
qed

lemma hashProcessData_unfold:
  "hashProcessData P algo data hv hLen hw =
     (fst (save_hash_value hLen hv
        (wait_not_busy (write_INDATA P 0 (process_blocks P data
           (restore_hash_value hv hLen (set_CTRL_INITCAL (write_CTRL algo (hw_log AcquireMutex hw)))))))),
      hw_log ReleaseMutex (snd (save_hash_value hLen hv
        (wait_not_busy (write_INDATA P 0 (process_blocks P data
           (restore_hash_value hv hLen (set_CTRL_INITCAL (write_CTRL algo (hw_log AcquireMutex hw))))))))))"
  by (simp add: hashProcessData_def Let_def split_beta)

lemma start_fields [simp]:
  "ALGSEL (set_CTRL_INITCAL (write_CTRL algo hw)) = algo"
  "INFIFO (set_CTRL_INITCAL (write_CTRL algo hw)) = []"
  "accesses (set_CTRL_INITCAL (write_CTRL algo hw)) = accesses hw @ [Write_CTRL algo, Set_CTRL_INITCAL]"
  by (simp_all add: set_CTRL_INITCAL_def write_CTRL_def)

lemma hashProcessData_engine:
  assumes "hLen = state_words algo" and "length hv = hLen"
  shows "fst (hashProcessData P algo data hv hLen hw) = hash_engine P algo hv data"
proof -
  define hw3 where "hw3 = set_CTRL_INITCAL (write_CTRL algo (hw_log AcquireMutex hw))"
  define hw4 where "hw4 = restore_hash_value hv hLen hw3"
  define hw5 where "hw5 = process_blocks P data hw4"
  define hw7 where "hw7 = wait_not_busy (write_INDATA P 0 hw5)"
  have a3: "ALGSEL hw3 = algo" and f3: "INFIFO hw3 = []" by (simp_all add: hw3_def)
  have a4: "ALGSEL hw4 = algo" and f4: "INFIFO hw4 = []" by (simp_all add: hw4_def a3 f3)
  have b4: "seed_bank hw4 = hv" "current_bank hw4 = hv"
    using restore_hash_value_banks[of hw3 hLen hv] assms by (simp_all add: hw4_def a3)
  have p4: "after_pending P hw4 = hv" by (simp add: after_pending_def f4 b4)
  have i4: "INFIFO hw4 = [] \<or> length (INFIFO hw4) = 16" by (simp add: f4)
  have s4: "seed_bank hw4 = current_bank hw4" by (simp add: b4)
  note st5 = process_blocks_state[OF i4 s4, of P data, folded hw5_def, unfolded a4 p4]
  have a5: "ALGSEL hw5 = algo" and s5: "seed_bank hw5 = current_bank hw5"
    and i5: "INFIFO hw5 = [] \<or> length (INFIFO hw5) = 16"
    and p5: "after_pending P hw5 = hash_engine P algo hv data"
    using st5 by simp_all
  have c7: "current_bank hw7 = hash_engine P algo hv data" and a7: "ALGSEL hw7 = algo"
    using write_INDATA_first(2)[OF i5 s5, of P 0] by (simp_all add: hw7_def p5 a5)
  have "fst (save_hash_value hLen hv hw7) = map (\<lambda>i. CTSWAP hw7 (14 + i)) [0..<hLen] @ drop hLen hv"
    using assms(2) by (intro save_hash_value_fst) simp
  also have "\<dots> = current_bank hw7" using assms by (simp add: current_bank_def a7)
  finally have "fst (save_hash_value hLen hv hw7) = hash_engine P algo hv data"
    by (simp add: c7)
  then show ?thesis
    by (simp add: hashProcessData_unfold hw7_def hw5_def hw4_def hw3_def)
qed

lemma hashProcessData_accesses:
  "\<exists>feed. accesses (snd (hashProcessData P algo data hv hLen hw)) =
       accesses hw @ [AcquireMutex, Write_CTRL algo, Set_CTRL_INITCAL]
         @ concat (map (\<lambda>i. [Write_CTSWAP (6 + i) (hv ! i), Write_CTSWAP (14 + i) (hv ! i)]) [0..<hLen])
         @ feed
         @ map (\<lambda>i. Read_CTSWAP (14 + i)) [0..<hLen] @ [ReleaseMutex]
     \<and> list_all is_data_access feed
     \<and> length (filter (\<lambda>a. a \<noteq> Read_STS) feed) = 16 * (length data div 64) + 1"
proof -
  define hw4 where "hw4 = restore_hash_value hv hLen (set_CTRL_INITCAL (write_CTRL algo (hw_log AcquireMutex hw)))"
  define hw6 where "hw6 = write_INDATA P 0 (process_blocks P data hw4)"
  obtain f where f: "accesses (process_blocks P data hw4) = accesses hw4 @ f"
    "list_all is_data_access f" "length (filter (\<lambda>a. a \<noteq> Read_STS) f) = 16 * (length data div 64)"
    using process_blocks_accesses by blast
  define feed where "feed = f @ Write_INDATA 0 # replicate (Suc (BUSY hw6)) Read_STS"
  have "accesses (snd (hashProcessData P algo data hv hLen hw)) =
       accesses hw @ [AcquireMutex, Write_CTRL algo, Set_CTRL_INITCAL]
         @ concat (map (\<lambda>i. [Write_CTSWAP (6 + i) (hv ! i), Write_CTSWAP (14 + i) (hv ! i)]) [0..<hLen])
         @ feed
         @ map (\<lambda>i. Read_CTSWAP (14 + i)) [0..<hLen] @ [ReleaseMutex]"
    by (simp add: hashProcessData_unfold save_hash_value_snd wait_not_busy_accesses
        f(1)[unfolded hw4_def] restore_hash_value_accesses feed_def hw6_def hw4_def)
  moreover have "list_all is_data_access feed" using f(2) by (auto simp: feed_def list_all_iff)
  moreover have "length (filter (\<lambda>a. a \<noteq> Read_STS) feed) = 16 * (length data div 64) + 1"
    using f(3) by (simp add: feed_def)
  ultimately show ?thesis by blast
qed

lemma hashProcessData_invocations:
  "invocations (snd (hashProcessData P algo data hv hLen hw)) = Suc (invocations hw)"
proof -
  obtain feed where f: "accesses (snd (hashProcessData P algo data hv hLen hw)) =
       accesses hw @ [AcquireMutex, Write_CTRL algo, Set_CTRL_INITCAL]
         @ concat (map (\<lambda>i. [Write_CTSWAP (6 + i) (hv ! i), Write_CTSWAP (14 + i) (hv ! i)]) [0..<hLen])
         @ feed
         @ map (\<lambda>i. Read_CTSWAP (14 + i)) [0..<hLen] @ [ReleaseMutex]"
     "list_all is_data_access feed"
    using hashProcessData_accesses by blast
  have 1: "filter (\<lambda>a. a = AcquireMutex) feed = []"
    using f(2) by (auto simp: filter_empty_conv list_all_iff)
  have 2: "filter (\<lambda>a. a = AcquireMutex) (map (\<lambda>i. Read_CTSWAP (14 + i)) [0..<hLen]) = []"
    by (auto simp: filter_empty_conv)
  have 3: "filter (\<lambda>a. a = AcquireMutex)
      (concat (map (\<lambda>i. [Write_CTSWAP (6 + i) (hv ! i), Write_CTSWAP (14 + i) (hv ! i)]) [0..<hLen])) = []"
    by (auto simp: filter_empty_conv)
  show ?thesis by (simp add: invocations_def f(1) 1 2 3)
qed

section \<open>One iteration of the update loop\<close>

lemma update_iteration_direct:
  assumes "size_c ctx = 0" and "64 \<le> length data"
  shows "update_iteration P algo hLen (ctx, data, hw) =
           Inr (ctx\<lparr>h := fst (hashProcessData P algo (take (length data - length data mod 64) data) (h ctx) hLen hw),
                     totalSize := totalSize ctx + of_nat (length data - length data mod 64)\<rparr>,
                drop (length data - length data mod 64) data,
                snd (hashProcessData P algo (take (length data - length data mod 64) data) (h ctx) hLen hw))"
  using assms unfolding update_iteration_def Let_def split_beta
  by (simp only: fst_conv snd_conv simp_thms if_True)

lemma unat_64_minus:
  fixes s :: size_t
  assumes "s < 64"
  shows "unat (64 - s) = 64 - unat s"
  using assms by (simp add: unat_sub word_less_nat_alt word_le_nat_alt)

lemma size_plus_n:
  fixes s :: size_t
  assumes "s < 64" and "n \<le> 64 - unat s"
  shows "unat (s + of_nat n) = unat s + n"
  using assms 
  by (simp add: unat_word_ariths word_less_nat_alt unat_of_nat take_bit_nat_eq_self)

lemma update_iteration_buffer:
  assumes "size_c ctx < 64" and "\<not> (size_c ctx = 0 \<and> 64 \<le> length data)"
  shows "update_iteration P algo hLen (ctx, data, hw) =
          (let n = min (length data) (64 - unat (size_c ctx));
               ctx1 = ctx\<lparr>buffer := take (unat (size_c ctx)) (buffer ctx) @ take n data
                                     @ drop (unat (size_c ctx) + n) (buffer ctx),
                          size_c := size_c ctx + of_nat n,
                          totalSize := totalSize ctx + of_nat n\<rparr>
           in if unat (size_c ctx) + n = 64
              then Inr (ctx1\<lparr>h := fst (hashProcessData P algo (take 64 (buffer ctx1)) (h ctx) hLen hw),
                             size_c := 0\<rparr>,
                        drop n data,
                        snd (hashProcessData P algo (take 64 (buffer ctx1)) (h ctx) hLen hw))
              else Inr (ctx1, drop n data, hw))"
proof -
  define n where "n = min (length data) (64 - unat (size_c ctx))"
  have n: "min (length data) (unat (64 - size_c ctx)) = n"
    using assms(1) by (simp add: n_def unat_64_minus)
  have le: "\<not> 64 < unat (size_c ctx) + n"
    using assms(1) by (simp add: n_def word_less_nat_alt)
  have u: "unat (size_c ctx + of_nat n) = unat (size_c ctx) + n"
    using assms(1) by (intro size_plus_n) (simp_all add: n_def)
  have eq64: "(size_c ctx + of_nat n = 64) = (unat (size_c ctx) + n = 64)"
    by (simp add: word_unat_eq_iff u)
  show ?thesis
    unfolding update_iteration_def Let_def split_beta fst_conv snd_conv n n_def[symmetric]
    using assms(2) le eq64 by (simp only: if_False simp_thms) (simp add: u)
qed

lemma update_iteration_overflow:
  assumes "64 < size_c ctx" and "data \<noteq> []"
  shows "update_iteration P algo hLen (ctx, data, hw) = Inl BufferOverflow"
proof -
  have "64 - size_c ctx \<noteq> 0" using assms(1) by auto
  then have "0 < unat (64 - size_c ctx)" by (simp add: unat_gt_0)
  moreover have "64 < unat (size_c ctx)" using assms(1) by (simp add: word_less_nat_alt)
  ultimately have gt: "64 < unat (size_c ctx) + min (length data) (unat (64 - size_c ctx))"
    by simp
  have nd: "\<not> (size_c ctx = 0 \<and> 64 \<le> length data)" using assms(1) by auto
  show ?thesis
    unfolding update_iteration_def Let_def split_beta fst_conv snd_conv
    using nd gt by (simp only: if_False if_True simp_thms)
qed

lemma update_iteration_full:
  assumes "size_c ctx = 64"
  shows "update_iteration P algo hLen (ctx, data, hw) =
           Inr (ctx\<lparr>h := fst (hashProcessData P algo (take 64 (buffer ctx)) (h ctx) hLen hw),
                     size_c := 0\<rparr>,
                data,
                snd (hashProcessData P algo (take 64 (buffer ctx)) (h ctx) hLen hw))"
  unfolding update_iteration_def Let_def split_beta fst_conv snd_conv
  using assms by simp

lemma direct_length:
  assumes "64 \<le> (n::nat)"
  shows "64 \<le> n - n mod 64" and "n - (n - n mod 64) = n mod 64" and "n mod 64 < n"
proof -
  have m: "n mod 64 < 64" by simp
  show "n mod 64 < n" using m assms by linarith
  show "n - (n - n mod 64) = n mod 64" by simp
  have "0 < n div 64" using assms by (simp add: div_greater_zero_iff)
  then have "64 * 1 \<le> 64 * (n div 64)" by (intro mult_le_mono2) simp
  then show "64 \<le> n - n mod 64" by (simp add: minus_mod_eq_mult_div)
qed

lemma size_cases:
  fixes s :: size_t
  obtains "s < 64" | "s = 64" | "64 < s"
  using linorder_less_linear by blast

lemma update_iteration_measure:
  assumes "update_iteration P algo hLen (ctx, data, hw) = Inr (ctx', data', hw')" and "data \<noteq> []"
  shows "2 * length data' + (if size_c ctx' = 64 then 1 else 0)
           < 2 * length data + (if size_c ctx = 64 then 1 else (0::nat))"
proof (cases "size_c ctx" rule: size_cases)
  case 1
  show ?thesis
  proof (cases "size_c ctx = 0 \<and> 64 \<le> length data")
    case True
    then have d: "size_c ctx = 0" "64 \<le> length data" by simp_all
    from assms(1) have "data' = drop (length data - length data mod 64) data" "size_c ctx' = 0"
      unfolding update_iteration_direct[OF d] using d(1) by auto
    then show ?thesis using direct_length[OF d(2)] by simp
  next
    case False
    define n where "n = min (length data) (64 - unat (size_c ctx))"
    have "0 < n" using 1 assms(2) by (simp add: n_def word_less_nat_alt)
    moreover from assms(1) have "data' = drop n data"
      unfolding update_iteration_buffer[OF 1 False] Let_def n_def[symmetric]
      by (auto split: if_splits)
    moreover have "n \<le> length data" by (simp add: n_def)
    ultimately have "2 * length data' + 1 < 2 * length data" by simp
    then show ?thesis by simp
  qed
next
  case 2
  from assms(1) have "data' = data" "size_c ctx' = 0"
    unfolding update_iteration_full[OF 2] by auto
  then show ?thesis using 2 by simp
next
  case 3
  then show ?thesis using assms update_iteration_overflow by simp
qed

termination update_loop
proof (relation "measure (\<lambda>(P, algo, hLen, ctx, data, hw).
         2 * length data + (if size_c ctx = 64 then 1 else 0))", goal_cases)
  case 1
  show ?case by simp
next
  case (2 P algo hLen ctx data hw r ctx' rest data' hw')
  then have "update_iteration P algo hLen (ctx, data, hw) = Inr (ctx', data', hw')" and "data \<noteq> []"
    by simp_all
  from update_iteration_measure[OF this] show ?case by simp
qed

declare update_loop.simps [simp del]

section \<open>The update loop\<close>

lemma buffered_length: "valid_context hLen ctx \<Longrightarrow> length (buffered ctx) = unat (size_c ctx)"
  by (simp add: valid_context_def buffered_def word_less_nat_alt)

lemma buffered_short: "valid_context hLen ctx \<Longrightarrow> length (buffered ctx) < 64"
  by (simp add: buffered_length) (simp add: valid_context_def word_less_nat_alt)

lemma iteration_direct_absorbs:
  assumes v: "valid_context hLen ctx" and hl: "hLen = state_words algo"
    and d: "size_c ctx = 0" "64 \<le> length data"
  shows "\<exists>ctx' data' hw'. update_iteration P algo hLen (ctx, data, hw) = Inr (ctx', data', hw')
      \<and> valid_context hLen ctx'
      \<and> absorbed_state P algo ctx' data' = absorbed_state P algo ctx data
      \<and> absorbed_rest ctx' data' = absorbed_rest ctx data
      \<and> totalSize ctx' + of_nat (length data') = totalSize ctx + of_nat (length data)"
proof -
  define n where "n = length data - length data mod 64"
  define ctx' where "ctx' = ctx\<lparr>h := fst (hashProcessData P algo (take n data) (h ctx) hLen hw),
                     totalSize := totalSize ctx + of_nat n\<rparr>"
  have it: "update_iteration P algo hLen (ctx, data, hw) =
      Inr (ctx', drop n data, snd (hashProcessData P algo (take n data) (h ctx) hLen hw))"
    unfolding update_iteration_direct[OF d] n_def ctx'_def ..
  have lh: "length (h ctx) = hLen" using v by (simp add: valid_context_def)
  have hv: "h ctx' = hash_engine P algo (h ctx) (take n data)"
    by (simp add: ctx'_def hashProcessData_engine[OF hl lh])
  have nle: "n \<le> length data" and n64: "64 dvd n" and rest: "length data - n = length data mod 64"
    by (simp_all add: n_def direct_length[OF d(2)] dvd_minus_mod)
  have b0: "buffered ctx = []" "buffered ctx' = []" using d(1) by (simp_all add: buffered_def ctx'_def)
  have "length (h ctx') = hLen"
    unfolding hv using hash_engine_length[of "h ctx" algo P "take n data"] lh hl by simp
  moreover have "buffer ctx' = buffer ctx" "size_c ctx' = size_c ctx" by (simp_all add: ctx'_def)
  ultimately have v': "valid_context hLen ctx'"
    using v by (simp add: valid_context_def)
  have "64 dvd length (take n data)" using nle n64 by simp
  from hash_engine_append[OF this, of P algo "h ctx" "drop n data"]
  have q1: "absorbed_state P algo ctx' (drop n data) = absorbed_state P algo ctx data"
    by (simp add: absorbed_state_def b0 hv)
  have q2: "absorbed_rest ctx' (drop n data) = absorbed_rest ctx data"
    by (simp add: absorbed_rest_def b0 rest) (simp add: n_def)
  have "of_nat n + of_nat (length data - n) = (of_nat (length data) :: uint64_t)"
    using nle by (metis of_nat_add le_add_diff_inverse)
  then have q3: "totalSize ctx' + of_nat (length (drop n data)) = totalSize ctx + of_nat (length data)"
    by (simp add: ctx'_def add.assoc)
  show ?thesis using it v' q1 q2 q3 by blast
qed

lemma iteration_buffer_absorbs:
  assumes v: "valid_context hLen ctx" and hl: "hLen = state_words algo"
    and nd: "\<not> (size_c ctx = 0 \<and> 64 \<le> length data)" and ne: "data \<noteq> []"
  shows "\<exists>ctx' data' hw'. update_iteration P algo hLen (ctx, data, hw) = Inr (ctx', data', hw')
      \<and> valid_context hLen ctx'
      \<and> absorbed_state P algo ctx' data' = absorbed_state P algo ctx data
      \<and> absorbed_rest ctx' data' = absorbed_rest ctx data
      \<and> totalSize ctx' + of_nat (length data') = totalSize ctx + of_nat (length data)"
proof -
  define s where "s = unat (size_c ctx)"
  define n where "n = min (length data) (64 - s)"
  define ctx1 where "ctx1 = ctx\<lparr>buffer := take s (buffer ctx) @ take n data @ drop (s + n) (buffer ctx),
                          size_c := size_c ctx + of_nat n,
                          totalSize := totalSize ctx + of_nat n\<rparr>"
  define r where "r = hashProcessData P algo (take 64 (buffer ctx1)) (h ctx) hLen hw"
  have lt: "size_c ctx < 64" and lb: "length (buffer ctx) = 64" and lh: "length (h ctx) = hLen"
    using v by (simp_all add: valid_context_def)
  have s64: "s < 64" using lt by (simp add: s_def word_less_nat_alt)
  have nle: "n \<le> length data" and nle': "n \<le> 64 - s" by (simp_all add: n_def)
  have it: "update_iteration P algo hLen (ctx, data, hw) =
      (if s + n = 64 then Inr (ctx1\<lparr>h := fst r, size_c := 0\<rparr>, drop n data, snd r)
       else Inr (ctx1, drop n data, hw))"
    unfolding update_iteration_buffer[OF lt nd] Let_def s_def[symmetric] n_def[symmetric]
      ctx1_def[symmetric] r_def[symmetric] ..
  have u1: "unat (size_c ctx1) = s + n"
    using size_plus_n[OF lt, of n] nle' by (simp add: ctx1_def s_def)
  have lb1: "length (buffer ctx1) = 64"
    using lb s64 nle nle' by (simp add: ctx1_def)
  have b1: "buffered ctx1 = buffered ctx @ take n data"
    using lb s64 nle nle' by (simp add: buffered_def u1) (simp add: ctx1_def s_def)
  have h1: "h ctx1 = h ctx" by (simp add: ctx1_def)
  have "of_nat n + of_nat (length data - n) = (of_nat (length data) :: uint64_t)"
    using nle by (metis of_nat_add le_add_diff_inverse)
  then have q3: "totalSize ctx1 + of_nat (length (drop n data)) = totalSize ctx + of_nat (length data)"
    by (simp add: ctx1_def add.assoc)
  show ?thesis
  proof (cases "s + n = 64")
    case False
    then have "unat (size_c ctx1) < 64" using nle' u1 s64 by simp
    then have v1: "valid_context hLen ctx1"
      using lh lb1 by (simp add: valid_context_def h1 word_less_nat_alt)
    have q1: "absorbed_state P algo ctx1 (drop n data) = absorbed_state P algo ctx data"
      by (simp add: absorbed_state_def b1 h1)
    have q2: "absorbed_rest ctx1 (drop n data) = absorbed_rest ctx data"
      by (simp add: absorbed_rest_def b1)
    show ?thesis using it False v1 q1 q2 q3 by simp
  next
    case True
    define ctx' where "ctx' = ctx1\<lparr>h := fst r, size_c := 0\<rparr>"
    have "take 64 (buffer ctx1) = buffered ctx1"
      by (simp only: buffered_def u1 True)
    then have full: "take 64 (buffer ctx1) = buffered ctx @ take n data"
      by (simp only: b1)
    have l64: "length (buffered ctx @ take n data) = 64"
      using True nle by (simp add: buffered_length[OF v] s_def[symmetric])
    have hv: "h ctx' = hash_engine P algo (h ctx) (buffered ctx @ take n data)"
      by (simp add: ctx'_def r_def full hashProcessData_engine[OF hl lh])
    have "length (h ctx') = hLen"
      unfolding hv using hash_engine_length[of "h ctx" algo] lh hl by simp
    moreover have "buffer ctx' = buffer ctx1" "size_c ctx' = 0" by (simp_all add: ctx'_def)
    ultimately have v': "valid_context hLen ctx'" using lb1 by (simp add: valid_context_def)
    have b0: "buffered ctx' = []" by (simp add: buffered_def ctx'_def)
    have "64 dvd length (buffered ctx @ take n data)" by (simp only: l64 dvd_refl)
    from hash_engine_append[OF this, of P algo "h ctx" "drop n data"]
    have q1: "absorbed_state P algo ctx' (drop n data) = absorbed_state P algo ctx data"
      by (simp add: absorbed_state_def b0 hv)
    have len: "length (buffered ctx @ data) = 64 + (length data - n)"
      using l64 nle by (simp add: buffered_length[OF v])
    define x where "x = (length data - n) - (length data - n) mod 64"
    have A: "64 + (length data - n) - (64 + (length data - n)) mod 64 = 64 + x"
      by (simp add: x_def)
    have "absorbed_rest ctx data = drop (64 + x) ((buffered ctx @ take n data) @ drop n data)"
      unfolding absorbed_rest_def len A by (simp only: append_assoc append_take_drop_id)
    also have "\<dots> = drop x (drop n data)"
      using l64 by (simp only: drop_append) simp
    also have "\<dots> = absorbed_rest ctx' (drop n data)"
      unfolding absorbed_rest_def b0 x_def by simp
    finally have q2: "absorbed_rest ctx' (drop n data) = absorbed_rest ctx data" ..
    have q3': "totalSize ctx' + of_nat (length (drop n data)) = totalSize ctx + of_nat (length data)"
      using q3 by (simp add: ctx'_def)
    show ?thesis using it True v' q1 q2 q3' unfolding ctx'_def by simp
  qed
qed

lemma iteration_absorbs:
  assumes v: "valid_context hLen ctx" and hl: "hLen = state_words algo" and ne: "data \<noteq> []"
  shows "\<exists>ctx' data' hw'. update_iteration P algo hLen (ctx, data, hw) = Inr (ctx', data', hw')
      \<and> valid_context hLen ctx'
      \<and> absorbed_state P algo ctx' data' = absorbed_state P algo ctx data
      \<and> absorbed_rest ctx' data' = absorbed_rest ctx data
      \<and> totalSize ctx' + of_nat (length data') = totalSize ctx + of_nat (length data)"
proof (cases "size_c ctx = 0 \<and> 64 \<le> length data")
  case True
  then show ?thesis using iteration_direct_absorbs[OF v hl] by blast
next
  case False
  then show ?thesis using iteration_buffer_absorbs[OF v hl False ne] by blast
qed

lemma update_loop_absorbs:
  assumes "valid_context hLen ctx" and "hLen = state_words algo"
  shows "\<exists>ctx' hw'. update_loop P algo hLen ctx data hw = Inr (ctx', hw')
      \<and> valid_context hLen ctx'
      \<and> h ctx' = absorbed_state P algo ctx data
      \<and> buffered ctx' = absorbed_rest ctx data
      \<and> totalSize ctx' = totalSize ctx + of_nat (length data)"
  using assms
proof (induction P algo hLen ctx data hw rule: update_loop.induct)
  case (1 P algo hLen ctx data hw)
  show ?case
  proof (cases "data = []")
    case True
    have "length (buffered ctx) < 64" using buffered_short[OF "1.prems"(1)] .
    then show ?thesis using True "1.prems"(1)
      by (simp add: update_loop.simps[of _ _ _ _ "[]"] absorbed_state_def absorbed_rest_def
          hash_engine_short)
  next
    case False
    from iteration_absorbs[OF "1.prems" False, of P hw]
    obtain ctx1 data1 hw1 where
      it: "update_iteration P algo hLen (ctx, data, hw) = Inr (ctx1, data1, hw1)"
      and v1: "valid_context hLen ctx1"
      and q1: "absorbed_state P algo ctx1 data1 = absorbed_state P algo ctx data"
      and q2: "absorbed_rest ctx1 data1 = absorbed_rest ctx data"
      and q3: "totalSize ctx1 + of_nat (length data1) = totalSize ctx + of_nat (length data)"
      by blast
    have pos: "0 < length data" using False by simp
    from "1.IH"[OF pos it refl refl v1 "1.prems"(2)]
    obtain ctx' hw' where
      r: "update_loop P algo hLen ctx1 data1 hw1 = Inr (ctx', hw')"
      "valid_context hLen ctx'"
      "h ctx' = absorbed_state P algo ctx1 data1"
      "buffered ctx' = absorbed_rest ctx1 data1"
      "totalSize ctx' = totalSize ctx1 + of_nat (length data1)"
      by blast
    have "update_loop P algo hLen ctx data hw = update_loop P algo hLen ctx1 data1 hw1"
      using pos it by (subst update_loop.simps) simp
    with r q1 q2 q3 show ?thesis by simp
  qed
qed

lemma whole_blocks_facts:
  fixes X :: "'a list"
  defines "k \<equiv> length X - length X mod 64"
  shows "64 dvd length (take k X)" and "length (drop k X) < 64" and "k \<le> length X"
    and "length (drop k X) = length X mod 64"
proof -
  show kl: "k \<le> length X" by (simp add: k_def)
  have "64 dvd k" by (simp add: k_def dvd_minus_mod)
  then show "64 dvd length (take k X)" using kl by simp
  show "length (drop k X) = length X mod 64" by (simp add: k_def)
  then show "length (drop k X) < 64" by simp
qed

lemma hash_engine_whole_blocks:
  "hash_engine P algo st (take (length X - length X mod 64) X) = hash_engine P algo st X"
proof -
  define k where "k = length X - length X mod 64"
  have "hash_engine P algo st (take k X @ drop k X) =
        hash_engine P algo (hash_engine P algo st (take k X)) (drop k X)"
    using whole_blocks_facts(1)[of X] unfolding k_def by (rule hash_engine_append)
  also have "\<dots> = hash_engine P algo st (take k X)"
    using whole_blocks_facts(2)[of X] unfolding k_def by (rule hash_engine_short)
  finally show ?thesis by (simp add: k_def)
qed

lemma hash_engine_resume:
  "hash_engine P algo (hash_engine P algo st X) (drop (length X - length X mod 64) X @ b)
     = hash_engine P algo st (X @ b)"
proof -
  define k where "k = length X - length X mod 64"
  have "hash_engine P algo st ((take k X) @ (drop k X @ b)) =
        hash_engine P algo (hash_engine P algo st (take k X)) (drop k X @ b)"
    using whole_blocks_facts(1)[of X] unfolding k_def by (rule hash_engine_append)
  moreover have "hash_engine P algo st (take k X) = hash_engine P algo st X"
    unfolding k_def by (rule hash_engine_whole_blocks)
  moreover have "take k X @ drop k X @ b = X @ b" by simp
  ultimately show ?thesis unfolding k_def by (simp only:)
qed

lemma rest_resume:
  fixes X :: "'a list"
  defines "k \<equiv> length X - length X mod 64"
  shows "drop (length (drop k X @ b) - length (drop k X @ b) mod 64) (drop k X @ b)
       = drop (length (X @ b) - length (X @ b) mod 64) (X @ b)"
proof -
  define L' where "L' = length (drop k X @ b)"
  have kl: "k \<le> length X" and k64: "64 dvd k" by (simp_all add: k_def dvd_minus_mod)
  have L: "length (X @ b) = k + L'" using kl by (simp add: L'_def)
  have "(k + L') mod 64 = L' mod 64" using k64 by (simp add: mod_add_left_eq dvd_eq_mod_eq_0 flip: mod_add_eq)
  then have e: "k + L' - (k + L') mod 64 = k + (L' - L' mod 64)" by simp
  have s2: "drop k (X @ b) = drop k X @ b" using kl by simp
  have "drop (length (X @ b) - length (X @ b) mod 64) (X @ b) = drop (k + (L' - L' mod 64)) (X @ b)"
    by (simp only: L e)
  also have "\<dots> = drop (L' - L' mod 64) (drop k (X @ b))"
    by (simp only: drop_drop add.commute)
  also have "\<dots> = drop (L' - L' mod 64) (drop k X @ b)"
    by (simp only: s2)
  finally show ?thesis by (simp only: L'_def)
qed

lemma absorbed_resume:
  assumes "h ctx' = absorbed_state P algo ctx a" and "buffered ctx' = absorbed_rest ctx a"
  shows "absorbed_state P algo ctx' b = absorbed_state P algo ctx (a @ b)"
    and "absorbed_rest ctx' b = absorbed_rest ctx (a @ b)"
proof -
  have "absorbed_state P algo ctx' b =
      hash_engine P algo (hash_engine P algo (h ctx) (buffered ctx @ a))
        (drop (length (buffered ctx @ a) - length (buffered ctx @ a) mod 64) (buffered ctx @ a) @ b)"
    by (simp only: absorbed_state_def[of P algo ctx'] assms)
       (simp only: absorbed_state_def absorbed_rest_def)
  then show "absorbed_state P algo ctx' b = absorbed_state P algo ctx (a @ b)"
    by (simp only: hash_engine_resume absorbed_state_def append_assoc)
  have "absorbed_rest ctx' b =
      drop (length (drop (length (buffered ctx @ a) - length (buffered ctx @ a) mod 64) (buffered ctx @ a) @ b)
            - length (drop (length (buffered ctx @ a) - length (buffered ctx @ a) mod 64) (buffered ctx @ a) @ b) mod 64)
        (drop (length (buffered ctx @ a) - length (buffered ctx @ a) mod 64) (buffered ctx @ a) @ b)"
    by (simp only: absorbed_rest_def[of ctx'] assms)
       (simp only: absorbed_rest_def)
  then show "absorbed_rest ctx' b = absorbed_rest ctx (a @ b)"
    by (simp only: rest_resume absorbed_rest_def append_assoc)
qed

lemma of_nat_split_total:
  "n \<le> m \<Longrightarrow> (t :: uint64_t) + of_nat n + of_nat (m - n) = t + of_nat m"
  by (metis of_nat_add le_add_diff_inverse add.assoc)

lemma iteration_progress:
  assumes lt: "size_c ctx < 64" and ne: "data \<noteq> []"
  shows "\<exists>ctx' data' hw'. update_iteration P algo hLen (ctx, data, hw) = Inr (ctx', data', hw')
      \<and> size_c ctx' < 64 \<and> length data' < length data
      \<and> totalSize ctx' + of_nat (length data') = totalSize ctx + of_nat (length data)"
proof (cases "size_c ctx = 0 \<and> 64 \<le> length data")
  case True
  then have d: "size_c ctx = 0" "64 \<le> length data" by simp_all
  show ?thesis
    unfolding update_iteration_direct[OF d]
    using d direct_length[OF d(2)] of_nat_split_total[of "length data - length data mod 64" "length data" "totalSize ctx"]
    by simp
next
  case False
  define s where "s = unat (size_c ctx)"
  define n where "n = min (length data) (64 - s)"
  have s64: "s < 64" using lt by (simp add: s_def word_less_nat_alt)
  have nle: "n \<le> length data" and nle': "n \<le> 64 - s" and npos: "0 < n"
    using ne s64 by (simp_all add: n_def)
  have u1: "unat (size_c ctx + of_nat n) = s + n"
    using size_plus_n[OF lt, of n] nle' by (simp add: s_def)
  have lt1: "s + n \<noteq> 64 \<Longrightarrow> size_c ctx + of_nat n < 64"
    using nle' s64 by (simp add: word_less_nat_alt u1)
  show ?thesis
    unfolding update_iteration_buffer[OF lt False] Let_def s_def[symmetric] n_def[symmetric]
    using lt1 npos nle of_nat_split_total[OF nle, of "totalSize ctx"] ne
    by (cases "s + n = 64") simp_all
qed

lemma update_loop_size_total:
  assumes "size_c ctx < 64"
  shows "\<exists>ctx' hw'. update_loop P algo hLen ctx data hw = Inr (ctx', hw')
      \<and> size_c ctx' < 64 \<and> totalSize ctx' = totalSize ctx + of_nat (length data)"
  using assms
proof (induction P algo hLen ctx data hw rule: update_loop.induct)
  case (1 P algo hLen ctx data hw)
  show ?case
  proof (cases "data = []")
    case True
    then show ?thesis using "1.prems" by (simp add: update_loop.simps[of _ _ _ _ "[]"])
  next
    case False
    from iteration_progress[OF "1.prems" False, of P algo hLen hw]
    obtain ctx1 data1 hw1 where
      it: "update_iteration P algo hLen (ctx, data, hw) = Inr (ctx1, data1, hw1)"
      and lt1: "size_c ctx1 < 64"
      and q3: "totalSize ctx1 + of_nat (length data1) = totalSize ctx + of_nat (length data)"
      by blast
    have pos: "0 < length data" using False by simp
    from "1.IH"[OF pos it refl refl lt1]
    obtain ctx' hw' where
      r: "update_loop P algo hLen ctx1 data1 hw1 = Inr (ctx', hw')" "size_c ctx' < 64"
      "totalSize ctx' = totalSize ctx1 + of_nat (length data1)"
      by blast
    have "update_loop P algo hLen ctx data hw = update_loop P algo hLen ctx1 data1 hw1"
      using pos it by (subst update_loop.simps) simp
    with r q3 show ?thesis by simp
  qed
qed

lemma update_calls_size_total:
  assumes "size_c ctx < 64"
  shows "\<exists>ctx' hw'. update_calls (update_loop P algo hLen) ctx chunks hw = Inr (ctx', hw')
      \<and> size_c ctx' < 64
      \<and> totalSize ctx' = totalSize ctx + of_nat (sum_list (map length chunks))"
  using assms
proof (induction chunks arbitrary: ctx hw)
  case Nil
  then show ?case by simp
next
  case (Cons c cs)
  from update_loop_size_total[OF Cons.prems, of P algo hLen c hw]
  obtain ctx1 hw1 where 1: "update_loop P algo hLen ctx c hw = Inr (ctx1, hw1)" "size_c ctx1 < 64"
    "totalSize ctx1 = totalSize ctx + of_nat (length c)" by blast
  from Cons.IH[OF 1(2), of hw1] obtain ctx' hw' where
    2: "update_calls (update_loop P algo hLen) ctx1 cs hw1 = Inr (ctx', hw')" "size_c ctx' < 64"
    "totalSize ctx' = totalSize ctx1 + of_nat (sum_list (map length cs))" by blast
  show ?case using 1 2 by (simp add: add.assoc)
qed

lemma update_loop_bounded_enough:
  assumes "size_c ctx < 64" and "length data \<le> fuel"
  shows "update_loop_bounded fuel P algo hLen ctx data hw = Some (update_loop P algo hLen ctx data hw)"
  using assms
proof (induction fuel arbitrary: ctx data hw)
  case 0
  then show ?case by (simp add: update_loop.simps[of _ _ _ _ "[]"])
next
  case (Suc fuel)
  show ?case
  proof (cases "data = []")
    case True
    then show ?thesis by (simp add: update_loop.simps[of _ _ _ _ "[]"])
  next
    case False
    from iteration_progress[OF Suc.prems(1) False, of P algo hLen hw]
    obtain ctx1 data1 hw1 where
      it: "update_iteration P algo hLen (ctx, data, hw) = Inr (ctx1, data1, hw1)"
      and lt1: "size_c ctx1 < 64" and less: "length data1 < length data"
      by blast
    have "length data1 \<le> fuel" using less Suc.prems(2) by simp
    from Suc.IH[OF lt1 this, of hw1] it False show ?thesis
      by (simp add: update_loop.simps[of P algo hLen ctx data hw])
  qed
qed

lemma md5Update_eq: "md5Update P = update_loop P HASH_CTRL_ALGSEL_MD5 (MD5_DIGEST_SIZE div 4)"
  by (intro ext) (simp add: md5Update_def)

lemma sha1Update_eq: "sha1Update P = update_loop P HASH_CTRL_ALGSEL_SHA1 (SHA1_DIGEST_SIZE div 4)"
  by (intro ext) (simp add: sha1Update_def)

lemma iteration_flush:
  assumes lt: "size_c ctx < 64" and lb: "length (buffer ctx) = 64"
    and nd: "\<not> (size_c ctx = 0 \<and> 64 \<le> length data)"
    and full: "64 \<le> unat (size_c ctx) + length data"
  shows "update_iteration P algo hLen (ctx, data, hw) =
           Inr (ctx\<lparr>buffer := buffered ctx @ take (64 - unat (size_c ctx)) data,
                     size_c := 0,
                     totalSize := totalSize ctx + of_nat (64 - unat (size_c ctx)),
                     h := fst (hashProcessData P algo
                            (buffered ctx @ take (64 - unat (size_c ctx)) data) (h ctx) hLen hw)\<rparr>,
                drop (64 - unat (size_c ctx)) data,
                snd (hashProcessData P algo
                       (buffered ctx @ take (64 - unat (size_c ctx)) data) (h ctx) hLen hw))"
    and "length (buffered ctx @ take (64 - unat (size_c ctx)) data) = 64"
proof -
  define s where "s = unat (size_c ctx)"
  have s64: "s < 64" using lt by (simp add: s_def word_less_nat_alt)
  have n: "min (length data) (64 - s) = 64 - s" using full by (simp add: s_def)
  have sn: "s + (64 - s) = 64" using s64 by simp
  have bl: "length (buffered ctx) = s" using lb s64 by (simp add: buffered_def s_def)
  show "length (buffered ctx @ take (64 - unat (size_c ctx)) data) = 64"
    using full s64 bl by (simp add: s_def)
  show "update_iteration P algo hLen (ctx, data, hw) =
           Inr (ctx\<lparr>buffer := buffered ctx @ take (64 - unat (size_c ctx)) data,
                     size_c := 0,
                     totalSize := totalSize ctx + of_nat (64 - unat (size_c ctx)),
                     h := fst (hashProcessData P algo
                            (buffered ctx @ take (64 - unat (size_c ctx)) data) (h ctx) hLen hw)\<rparr>,
                drop (64 - unat (size_c ctx)) data,
                snd (hashProcessData P algo
                       (buffered ctx @ take (64 - unat (size_c ctx)) data) (h ctx) hLen hw))"
    unfolding update_iteration_buffer[OF lt nd] Let_def s_def[symmetric] n sn
    using lb s64 full bl by (simp add: buffered_def s_def)
qed

lemma update_loop_bounded_from_full:
  assumes "size_c ctx = 64"
  shows "update_loop_bounded (Suc (length data)) P algo hLen ctx data hw
           = Some (update_loop P algo hLen ctx data hw)"
proof (cases "data = []")
  case True
  then show ?thesis by (simp add: update_loop.simps[of _ _ _ _ "[]"])
next
  case False
  have "size_c (ctx\<lparr>h := fst (hashProcessData P algo (take 64 (buffer ctx)) (h ctx) hLen hw),
                     size_c := 0\<rparr>) < 64" by simp
  from update_loop_bounded_enough[OF this order_refl]
  show ?thesis using False
    by (simp add: update_iteration_full[OF assms] update_loop.simps[of P algo hLen ctx data hw])
qed

lemma valid_same_size:
  assumes "valid_context hLen a" and "valid_context hLen b" and "buffered a = buffered b"
  shows "size_c a = size_c b"
  using buffered_length[OF assms(1)] buffered_length[OF assms(2)] assms(3)
  by (simp add: word_unat_eq_iff)

lemma update_calls_absorbs:
  assumes "valid_context hLen ctx" and "hLen = state_words algo"
  shows "\<exists>ctx' hw'. update_calls (update_loop P algo hLen) ctx chunks hw = Inr (ctx', hw')
      \<and> valid_context hLen ctx'
      \<and> h ctx' = absorbed_state P algo ctx (concat chunks)
      \<and> buffered ctx' = absorbed_rest ctx (concat chunks)
      \<and> totalSize ctx' = totalSize ctx + of_nat (length (concat chunks))"
  using assms
proof (induction chunks arbitrary: ctx hw)
  case Nil
  from update_loop_absorbs[OF Nil.prems, of P "[]" hw] show ?case
    by (simp add: update_loop.simps[of _ _ _ _ "[]"])
next
  case (Cons c cs)
  from update_loop_absorbs[OF Cons.prems, of P c hw]
  obtain ctx1 hw1 where 1: "update_loop P algo hLen ctx c hw = Inr (ctx1, hw1)"
    "valid_context hLen ctx1" "h ctx1 = absorbed_state P algo ctx c"
    "buffered ctx1 = absorbed_rest ctx c" "totalSize ctx1 = totalSize ctx + of_nat (length c)"
    by blast
  from Cons.IH[OF 1(2) Cons.prems(2), of hw1]
  obtain ctx' hw' where 2: "update_calls (update_loop P algo hLen) ctx1 cs hw1 = Inr (ctx', hw')"
    "valid_context hLen ctx'" "h ctx' = absorbed_state P algo ctx1 (concat cs)"
    "buffered ctx' = absorbed_rest ctx1 (concat cs)"
    "totalSize ctx' = totalSize ctx1 + of_nat (length (concat cs))"
    by blast
  note r = absorbed_resume[OF 1(3) 1(4), of "concat cs"]
  show ?case using 1 2 r by (simp add: add.assoc)
qed

lemma chunked_update_loop_agrees:
  assumes v: "valid_context hLen ctx" and hl: "hLen = state_words algo"
  shows "\<exists>ctxA hwA ctxB hwB.
      update_loop P algo hLen ctx (concat chunks) hw = Inr (ctxA, hwA)
    \<and> update_calls (update_loop P algo hLen) ctx chunks hw = Inr (ctxB, hwB)
    \<and> h ctxA = h ctxB \<and> buffered ctxA = buffered ctxB
    \<and> size_c ctxA = size_c ctxB \<and> totalSize ctxA = totalSize ctxB"
proof -
  from update_loop_absorbs[OF v hl, of P "concat chunks" hw]
  obtain ctxA hwA where A: "update_loop P algo hLen ctx (concat chunks) hw = Inr (ctxA, hwA)"
    "valid_context hLen ctxA" "h ctxA = absorbed_state P algo ctx (concat chunks)"
    "buffered ctxA = absorbed_rest ctx (concat chunks)"
    "totalSize ctxA = totalSize ctx + of_nat (length (concat chunks))"
    by blast
  from update_calls_absorbs[OF v hl, of P chunks hw]
  obtain ctxB hwB where B: "update_calls (update_loop P algo hLen) ctx chunks hw = Inr (ctxB, hwB)"
    "valid_context hLen ctxB" "h ctxB = absorbed_state P algo ctx (concat chunks)"
    "buffered ctxB = absorbed_rest ctx (concat chunks)"
    "totalSize ctxB = totalSize ctx + of_nat (length (concat chunks))"
    by blast
  have "size_c ctxA = size_c ctxB"
    using valid_same_size[OF A(2) B(2)] A(4) B(4) by simp
  with A B show ?thesis by simp
qed

lemma upt_4: "[0..<4] = [0, 1, 2, 3]"
  by (simp add: upt_rec)

text \<open>The example peripheral on one block of 64 bytes \<open>0x61\<close>.\<close>

lemma UNALIGNED_UINT32_READ_example: "k + 3 < 64 \<Longrightarrow> UNALIGNED_UINT32_READ (replicate 64 0x61) k = 0x61616161"
  by (simp add: UNALIGNED_UINT32_READ_def)

lemma block_words_example: "block_words (replicate 64 0x61) =
   [0x61616161, 0x61616161, 0x61616161, 0x61616161, 0x61616161, 0x61616161, 0x61616161, 0x61616161,
    0x61616161, 0x61616161, 0x61616161, 0x61616161, 0x61616161, 0x61616161, 0x61616161, 0x61616161]"
  by (simp add: block_words_def UNALIGNED_UINT32_READ_example)

lemma hash_engine_example: "hash_engine example_periph HASH_CTRL_ALGSEL_MD5 [1, 2, 3, 4] (replicate 64 0x61)
   = [0x61616162, 0x61616163, 0x61616164, 0x61616165]"
  by (simp add: hash_engine.simps[of _ _ _ "replicate 64 0x61"] hash_engine.simps[of _ _ _ "[]"]
      block_words_example example_periph_def MD5_DIGEST_SIZE_def upt_4)

lemma hash_engine_fresh_md5: "hash_engine example_periph HASH_CTRL_ALGSEL_MD5 (h fresh_md5) (replicate 64 0x61)
   = [0xC8A68462, 0x512F0CEA, 0xFA1C3E5F, 0x7193B5D7]"
  by (simp add: hash_engine.simps[of _ _ _ "replicate 64 0x61"] hash_engine.simps[of _ _ _ "[]"]
      block_words_example example_periph_def MD5_DIGEST_SIZE_def upt_4 fresh_md5_def)

lemma hashProcessData_trace_example: "accesses (snd (hashProcessData example_periph HASH_CTRL_ALGSEL_MD5 (replicate 64 0x61) [1, 2, 3, 4] 4 idle_hw)) =
       [AcquireMutex, Write_CTRL HASH_CTRL_ALGSEL_MD5, Set_CTRL_INITCAL,
        Write_CTSWAP 6 1, Write_CTSWAP 14 1, Write_CTSWAP 7 2, Write_CTSWAP 15 2,
        Write_CTSWAP 8 3, Write_CTSWAP 16 3, Write_CTSWAP 9 4, Write_CTSWAP 17 4,
        Write_INDATA 0x61616161, Read_STS,
        Write_INDATA 0x61616161, Write_INDATA 0x61616161, Write_INDATA 0x61616161,
        Write_INDATA 0x61616161, Write_INDATA 0x61616161, Write_INDATA 0x61616161,
        Write_INDATA 0x61616161, Write_INDATA 0x61616161, Write_INDATA 0x61616161,
        Write_INDATA 0x61616161, Write_INDATA 0x61616161, Write_INDATA 0x61616161,
        Write_INDATA 0x61616161, Write_INDATA 0x61616161, Write_INDATA 0x61616161,
        Write_INDATA 0, Read_STS, Read_STS, Read_STS,
        Read_CTSWAP 14, Read_CTSWAP 15, Read_CTSWAP 16, Read_CTSWAP 17, ReleaseMutex]"
    by (simp add: hashProcessData_unfold save_hash_value_snd wait_not_busy_accesses
        process_blocks_unfold[of _ "replicate 64 0x61"] process_blocks_unfold[of _ "[]"]
        feed_block_def UNALIGNED_UINT32_READ_example
        restore_hash_value_accesses upt_4 idle_hw_def write_INDATA_def
        set_CTRL_INITCAL_def write_CTRL_def partial_digest_def example_periph_def Let_def
        numeral_3_eq_3)

section \<open>Concurrent invocations of hashProcessData\<close>

lemma invocation_trace_shape:
  "\<exists>body. invocation_trace c = AcquireMutex # body @ [ReleaseMutex] \<and> list_all is_engine_access body"
proof -
  obtain feed where f: "accesses (snd (hashProcessData (call_periph c) (call_algo c) (call_data c) (call_h c)
          (call_hLen c) (call_hw c))) =
       accesses (call_hw c) @ [AcquireMutex, Write_CTRL (call_algo c), Set_CTRL_INITCAL]
         @ concat (map (\<lambda>i. [Write_CTSWAP (6 + i) (call_h c ! i), Write_CTSWAP (14 + i) (call_h c ! i)]) [0..<call_hLen c])
         @ feed
         @ map (\<lambda>i. Read_CTSWAP (14 + i)) [0..<call_hLen c] @ [ReleaseMutex]"
     "list_all is_data_access feed"
    using hashProcessData_accesses by blast
  define body where "body = [Write_CTRL (call_algo c), Set_CTRL_INITCAL]
         @ concat (map (\<lambda>i. [Write_CTSWAP (6 + i) (call_h c ! i), Write_CTSWAP (14 + i) (call_h c ! i)]) [0..<call_hLen c])
         @ feed
         @ map (\<lambda>i. Read_CTSWAP (14 + i)) [0..<call_hLen c]"
  have "\<And>a. is_data_access a \<Longrightarrow> is_engine_access a"
    by (case_tac a) simp_all
  then have "list_all is_engine_access feed" using f(2) by (auto simp: list_all_iff)
  then have "list_all is_engine_access body"
    by (auto simp: body_def list_all_iff)
  moreover have "invocation_trace c = AcquireMutex # body @ [ReleaseMutex]"
    by (simp add: invocation_trace_def f(1) body_def)
  ultimately show ?thesis by blast
qed

lemma bracketed_append:
  "bracketed b (xs @ ys) \<longleftrightarrow> bracketed b xs \<and> bracketed (foldl section_step b xs) ys"
  by (induction xs arbitrary: b) auto

lemma bracketed_body:
  "list_all is_engine_access body \<Longrightarrow> bracketed True body \<and> foldl section_step True body = True"
proof (induction body)
  case Nil
  then show ?case by simp
next
  case (Cons a body)
  then show ?case by (cases a) simp_all
qed

lemma invocation_trace_bracketed:
  "bracketed False (invocation_trace c) \<and> foldl section_step False (invocation_trace c) = False"
proof -
  obtain body where b: "invocation_trace c = AcquireMutex # body @ [ReleaseMutex]"
    "list_all is_engine_access body"
    using invocation_trace_shape by blast
  show ?thesis using bracketed_body[OF b(2)] by (simp add: b(1) bracketed_append)
qed

lemma thread_trace_bracketed:
  "bracketed False (thread_trace calls) \<and> foldl section_step False (thread_trace calls) = False"
proof (induction calls)
  case Nil
  then show ?case by (simp add: thread_trace_def)
next
  case (Cons c calls)
  have "thread_trace (c # calls) = invocation_trace c @ thread_trace calls"
    by (simp add: thread_trace_def)
  then show ?case using Cons invocation_trace_bracketed[of c]
    by (simp add: bracketed_append)
qed

lemma bracketed_take: "bracketed b xs \<Longrightarrow> bracketed b (take n xs)"
proof -
  assume "bracketed b xs"
  then have "bracketed b (take n xs @ drop n xs)" by simp
  then show ?thesis unfolding bracketed_append by blast
qed

lemma thread_accesses_nil:
  "list_all (\<lambda>e. fst e < n) es \<Longrightarrow> n \<le> t \<Longrightarrow> thread_accesses t es = []"
  by (auto simp: thread_accesses_def list_all_iff filter_empty_conv)

lemma interleaving_bracketed:
  assumes "interleaving es threads"
  shows "bracketed False (thread_accesses t es)"
proof (cases "t < length threads")
  case True
  then have "take (length (thread_accesses t es)) (thread_trace (threads ! t)) = thread_accesses t es"
    using assms by (simp add: interleaving_def list_all_iff)
  then show ?thesis
    using bracketed_take[of False "thread_trace (threads ! t)" "length (thread_accesses t es)"]
      thread_trace_bracketed[of "threads ! t"] by simp
next
  case False
  then show ?thesis using assms thread_accesses_nil[of "length threads" es t]
    by (simp add: interleaving_def)
qed

lemma thread_accesses_take:
  "thread_accesses t (take i es) = take (length (thread_accesses t (take i es))) (thread_accesses t es)"
proof -
  have "thread_accesses t es = thread_accesses t (take i es) @ thread_accesses t (drop i es)"
    unfolding thread_accesses_def by (metis append_take_drop_id filter_append map_append)
  then show ?thesis by simp
qed

lemma bracketed_thread_take:
  "bracketed False (thread_accesses t es) \<Longrightarrow> bracketed False (thread_accesses t (take i es))"
  using thread_accesses_take[of t i es] bracketed_take by metis

lemma respects_mutex_append:
  "respects_mutex m (es @ fs) \<longleftrightarrow> respects_mutex m es \<and> respects_mutex (foldl mutex_step m es) fs"
  by (induction es arbitrary: m) auto

lemma respects_mutex_take: "respects_mutex m es \<Longrightarrow> respects_mutex m (take i es)"
proof -
  assume "respects_mutex m es"
  then have "respects_mutex m (take i es @ drop i es)" by simp
  then show ?thesis unfolding respects_mutex_append by blast
qed

lemma thread_accesses_snoc:
  "thread_accesses t (es @ [(u, a)]) = (if u = t then thread_accesses t es @ [a] else thread_accesses t es)"
  by (simp add: thread_accesses_def)

lemma holder_is_critical:
  "(\<forall>t. bracketed False (thread_accesses t es)) \<Longrightarrow> respects_mutex None es \<Longrightarrow>
     (\<forall>t. critical t es \<longleftrightarrow> holder es = Some t)"
proof (induction es rule: rev_induct)
  case Nil
  then show ?case by (simp add: critical_def holder_def thread_accesses_def)
next
  case (snoc e es)
  obtain u a where e: "e = (u, a)" by (cases e)
  have br: "\<forall>t. bracketed False (thread_accesses t es)"
  proof
    fix t
    show "bracketed False (thread_accesses t es)"
      using snoc.prems(1)[rule_format, of t]
      by (auto simp: e thread_accesses_snoc bracketed_append split: if_splits)
  qed
  have rm: "respects_mutex None es"
    and acq: "a = AcquireMutex \<longrightarrow> holder es = None \<or> holder es = Some u"
    using snoc.prems(2) by (simp_all add: respects_mutex_append e holder_def)
  have ih: "\<forall>t. critical t es \<longleftrightarrow> holder es = Some t" using snoc.IH[OF br rm] .
  have bu: "bracketed (critical u es) [a]"
    using snoc.prems(1)[rule_format, of u]
    by (simp add: e thread_accesses_snoc bracketed_append critical_def)
  have h': "holder (es @ [e]) = mutex_step (holder es) (u, a)" by (simp add: holder_def e)
  have c': "\<And>t. critical t (es @ [e]) = (if t = u then section_step (critical u es) a else critical t es)"
    by (auto simp: critical_def e thread_accesses_snoc)
  show ?case
  proof (cases "a = AcquireMutex")
    case True
    then have "\<not> critical u es" using bu by simp
    then have "holder es = None" using ih acq True by auto
    then show ?thesis using ih True by (auto simp: h' c')
  next
    case False
    then have cu: "critical u es" using bu by simp
    then have hu: "holder es = Some u" using ih by simp
    show ?thesis
    proof (cases "a = ReleaseMutex")
      case True
      then show ?thesis using ih hu by (auto simp: h' c')
    next
      case r: False
      have "mutex_step (holder es) (u, a) = holder es" "section_step (critical u es) a = critical u es"
        using False r by (cases a; simp)+
      then show ?thesis using ih by (auto simp: h' c')
    qed
  qed
qed

lemma invocation_trace_example: "invocation_trace example_call =
       [AcquireMutex, Write_CTRL HASH_CTRL_ALGSEL_MD5, Set_CTRL_INITCAL,
        Write_CTSWAP 6 1, Write_CTSWAP 14 1, Write_CTSWAP 7 2, Write_CTSWAP 15 2,
        Write_CTSWAP 8 3, Write_CTSWAP 16 3, Write_CTSWAP 9 4, Write_CTSWAP 17 4,
        Write_INDATA 0x61616161, Read_STS,
        Write_INDATA 0x61616161, Write_INDATA 0x61616161, Write_INDATA 0x61616161,
        Write_INDATA 0x61616161, Write_INDATA 0x61616161, Write_INDATA 0x61616161,
        Write_INDATA 0x61616161, Write_INDATA 0x61616161, Write_INDATA 0x61616161,
        Write_INDATA 0x61616161, Write_INDATA 0x61616161, Write_INDATA 0x61616161,
        Write_INDATA 0x61616161, Write_INDATA 0x61616161, Write_INDATA 0x61616161,
        Write_INDATA 0, Read_STS, Read_STS, Read_STS,
        Read_CTSWAP 14, Read_CTSWAP 15, Read_CTSWAP 16, Read_CTSWAP 17, ReleaseMutex]"
  unfolding invocation_trace_def example_call_def
  by (simp add: hashProcessData_trace_example) (simp add: idle_hw_def)

section \<open>Initialisation of the MSP432E4 accelerator\<close>

lemma wait_peripheral_ready_returns:
  "ready (j + d) \<Longrightarrow> \<exists>n. wait_peripheral_ready ready j = Some n"
proof (induction d arbitrary: j)
  case 0
  then show ?case by (subst wait_peripheral_ready.simps) simp
next
  case (Suc d)
  then have "ready (Suc j + d)" by simp
  from Suc.IH[OF this] show ?case by (subst wait_peripheral_ready.simps) simp
qed

text \<open>
  C8. \<open>msp432e4CryptoInit\<close> returns \<open>ERROR_OUT_OF_RESOURCES\<close> exactly when
  \<open>osCreateMutex\<close> fails, and then it has made that one call and nothing else (no
  retry). When the mutex is created it enables and resets the CCM peripheral, waits for
  it, and returns \<open>NO_ERROR\<close>, still having called \<open>osCreateMutex\<close> once; the wait
  ends as soon as the peripheral reports ready.
\<close>

theorem msp432e4CryptoInit_reports_mutex_failure:
  "(\<not> ok \<longrightarrow> msp432e4CryptoInit ok ready = Some (ERROR_OUT_OF_RESOURCES, [Call_osCreateMutex]))
   \<and> (ok \<longrightarrow> (\<exists>k. ready k) \<longrightarrow>
        (\<exists>calls. msp432e4CryptoInit ok ready = Some (NO_ERROR, calls)
           \<and> count_list calls Call_osCreateMutex = 1))
   \<and> ((\<exists>calls. msp432e4CryptoInit ok ready = Some (ERROR_OUT_OF_RESOURCES, calls)) \<longleftrightarrow> \<not> ok)"
proof (intro conjI impI)
  assume "\<not> ok"
  then show "msp432e4CryptoInit ok ready = Some (ERROR_OUT_OF_RESOURCES, [Call_osCreateMutex])"
    by (simp add: msp432e4CryptoInit_def)
next
  assume ok and "\<exists>k. ready k"
  then obtain k where "ready (0 + k)" by auto
  from wait_peripheral_ready_returns[of ready 0 k, OF this] obtain n
    where "wait_peripheral_ready ready 0 = Some n" by blast
  with \<open>ok\<close> show "\<exists>calls. msp432e4CryptoInit ok ready = Some (NO_ERROR, calls)
           \<and> count_list calls Call_osCreateMutex = 1"
    by (simp add: msp432e4CryptoInit_def)
next
  show "(\<exists>calls. msp432e4CryptoInit ok ready = Some (ERROR_OUT_OF_RESOURCES, calls)) \<longleftrightarrow> \<not> ok"
    by (auto simp: msp432e4CryptoInit_def split: option.splits)
qed

theorem msp432e4CryptoInit_reports_mutex_failure_witness:
  "msp432e4CryptoInit False (\<lambda>k. 2 \<le> k) = Some (ERROR_OUT_OF_RESOURCES, [Call_osCreateMutex])
   \<and> (\<exists>k::nat. 2 \<le> k)
   \<and> (\<exists>calls. msp432e4CryptoInit True (\<lambda>k. 2 \<le> k) = Some (NO_ERROR, calls)
          \<and> count_list calls Call_osCreateMutex = 1)"
proof -
  have r: "\<exists>k::nat. 2 \<le> k" by (rule exI[of _ 2]) simp
  show ?thesis
    using msp432e4CryptoInit_reports_mutex_failure[of False "\<lambda>k. 2 \<le> k"]
      msp432e4CryptoInit_reports_mutex_failure[of True "\<lambda>k. 2 \<le> k"] r
    by simp
qed

section \<open>Properties of md5Update and sha1Update\<close>

text \<open>
  C9. An update call with length 0 is a no-op: the session (\<open>h\<close>, \<open>buffer\<close>, \<open>size\<close>,
  \<open>totalSize\<close>) is returned as it was, and so is the peripheral with its access
  trace, so no block-engine invocation took place.
\<close>

theorem empty_update_is_noop:
  "md5Update P ctx [] hw = Inr (ctx, hw) \<and> sha1Update P ctx [] hw = Inr (ctx, hw)"
  by (simp add: md5Update_def sha1Update_def update_loop.simps)

text \<open>
  C1, as amended. For every session with a 64-byte buffer, the algorithm's number of
  state words and \<open>size < 64\<close>, and every partition of a byte sequence into consecutive
  chunks: one update call with the whole sequence and one update call per chunk, in
  order, both return, and leave the same state words \<open>h\<close>, the same \<open>size\<close>, the
  same \<open>totalSize\<close> and the same buffered bytes (the first \<open>size\<close> bytes of
  \<open>buffer\<close>). The peripheral advances the state block by block, by a function of
  (algorithm, state, block) that is otherwise arbitrary. The bytes of \<open>buffer\<close> past
  \<open>size\<close> are not part of the statement.
\<close>

theorem chunked_updates_agree:
  "(valid_context (MD5_DIGEST_SIZE div 4) ctx \<longrightarrow>
      (\<exists>ctxA hwA ctxB hwB.
          md5Update P ctx (concat chunks) hw = Inr (ctxA, hwA)
        \<and> update_calls (md5Update P) ctx chunks hw = Inr (ctxB, hwB)
        \<and> h ctxA = h ctxB \<and> buffered ctxA = buffered ctxB
        \<and> size_c ctxA = size_c ctxB \<and> totalSize ctxA = totalSize ctxB))
   \<and> (valid_context (SHA1_DIGEST_SIZE div 4) ctx \<longrightarrow>
      (\<exists>ctxA hwA ctxB hwB.
          sha1Update P ctx (concat chunks) hw = Inr (ctxA, hwA)
        \<and> update_calls (sha1Update P) ctx chunks hw = Inr (ctxB, hwB)
        \<and> h ctxA = h ctxB \<and> buffered ctxA = buffered ctxB
        \<and> size_c ctxA = size_c ctxB \<and> totalSize ctxA = totalSize ctxB))"
proof (intro conjI impI)
  assume v: "valid_context (MD5_DIGEST_SIZE div 4) ctx"
  have hl: "MD5_DIGEST_SIZE div 4 = state_words HASH_CTRL_ALGSEL_MD5" by simp
  from chunked_update_loop_agrees[OF v hl, of P chunks hw]
  show "\<exists>ctxA hwA ctxB hwB.
          md5Update P ctx (concat chunks) hw = Inr (ctxA, hwA)
        \<and> update_calls (md5Update P) ctx chunks hw = Inr (ctxB, hwB)
        \<and> h ctxA = h ctxB \<and> buffered ctxA = buffered ctxB
        \<and> size_c ctxA = size_c ctxB \<and> totalSize ctxA = totalSize ctxB"
    unfolding md5Update_eq .
next
  assume v: "valid_context (SHA1_DIGEST_SIZE div 4) ctx"
  have hl: "SHA1_DIGEST_SIZE div 4 = state_words HASH_CTRL_ALGSEL_SHA1" by simp
  from chunked_update_loop_agrees[OF v hl, of P chunks hw]
  show "\<exists>ctxA hwA ctxB hwB.
          sha1Update P ctx (concat chunks) hw = Inr (ctxA, hwA)
        \<and> update_calls (sha1Update P) ctx chunks hw = Inr (ctxB, hwB)
        \<and> h ctxA = h ctxB \<and> buffered ctxA = buffered ctxB
        \<and> size_c ctxA = size_c ctxB \<and> totalSize ctxA = totalSize ctxB"
    unfolding sha1Update_eq .
qed

theorem chunked_updates_agree_witness:
  "valid_context (MD5_DIGEST_SIZE div 4) fresh_md5
   \<and> (\<exists>ctxA hwA. md5Update example_periph fresh_md5 (concat one_and_63) idle_hw = Inr (ctxA, hwA)
         \<and> h ctxA = [0xC8A68462, 0x512F0CEA, 0xFA1C3E5F, 0x7193B5D7]
         \<and> buffered ctxA = [] \<and> size_c ctxA = 0 \<and> totalSize ctxA = 64)
   \<and> (\<exists>ctxB hwB. update_calls (md5Update example_periph) fresh_md5 one_and_63 idle_hw = Inr (ctxB, hwB)
         \<and> h ctxB = [0xC8A68462, 0x512F0CEA, 0xFA1C3E5F, 0x7193B5D7]
         \<and> buffered ctxB = [] \<and> size_c ctxB = 0 \<and> totalSize ctxB = 64)
   \<and> valid_context (SHA1_DIGEST_SIZE div 4) fresh_sha1
   \<and> (\<exists>ctxA hwA ctxB hwB.
          sha1Update example_periph fresh_sha1 (concat one_and_63) idle_hw = Inr (ctxA, hwA)
        \<and> update_calls (sha1Update example_periph) fresh_sha1 one_and_63 idle_hw = Inr (ctxB, hwB)
        \<and> h ctxA = h ctxB \<and> buffered ctxA = buffered ctxB
        \<and> size_c ctxA = size_c ctxB \<and> totalSize ctxA = totalSize ctxB)"
proof -
  have vs: "valid_context (SHA1_DIGEST_SIZE div 4) fresh_sha1"
    by (simp add: valid_context_def fresh_sha1_def SHA1_DIGEST_SIZE_def)
  have S: "\<exists>ctxA hwA ctxB hwB.
          sha1Update example_periph fresh_sha1 (concat one_and_63) idle_hw = Inr (ctxA, hwA)
        \<and> update_calls (sha1Update example_periph) fresh_sha1 one_and_63 idle_hw = Inr (ctxB, hwB)
        \<and> h ctxA = h ctxB \<and> buffered ctxA = buffered ctxB
        \<and> size_c ctxA = size_c ctxB \<and> totalSize ctxA = totalSize ctxB"
    using chunked_updates_agree[of fresh_sha1 example_periph one_and_63 idle_hw] vs by blast
  have v: "valid_context (MD5_DIGEST_SIZE div 4) fresh_md5"
    by (simp add: valid_context_def fresh_md5_def MD5_DIGEST_SIZE_def)
  have c: "concat one_and_63 = replicate 64 0x61"
    by (simp add: one_and_63_def flip: replicate_Suc)
  have d: "size_c fresh_md5 = 0" "64 \<le> length (replicate 64 (0x61 :: uint8_t))"
    by (simp_all add: fresh_md5_def)
  have hl: "MD5_DIGEST_SIZE div 4 = state_words HASH_CTRL_ALGSEL_MD5" by simp
  have lh: "length (h fresh_md5) = MD5_DIGEST_SIZE div 4"
    by (simp add: fresh_md5_def MD5_DIGEST_SIZE_def)
  define r where "r = hashProcessData example_periph HASH_CTRL_ALGSEL_MD5 (replicate 64 0x61)
      (h fresh_md5) (MD5_DIGEST_SIZE div 4) idle_hw"
  have fr: "fst r = [0xC8A68462, 0x512F0CEA, 0xFA1C3E5F, 0x7193B5D7]"
    unfolding r_def hashProcessData_engine[OF hl lh] by (rule hash_engine_fresh_md5)
  have A: "md5Update example_periph fresh_md5 (concat one_and_63) idle_hw =
      Inr (fresh_md5\<lparr>h := fst r, totalSize := 64\<rparr>, snd r)"
    unfolding c
    by (simp add: md5Update_def update_loop.simps[of _ _ _ _ "replicate 64 0x61"]
        update_loop.simps[of _ _ _ _ "[]"] update_iteration_direct[OF d] r_def)
       (simp add: fresh_md5_def)
  from chunked_updates_agree[of fresh_md5 example_periph one_and_63 idle_hw] v
  obtain ctxB hwB where B: "update_calls (md5Update example_periph) fresh_md5 one_and_63 idle_hw = Inr (ctxB, hwB)"
    "h ctxB = fst r" "buffered ctxB = buffered (fresh_md5\<lparr>h := fst r, totalSize := 64\<rparr>)"
    "size_c ctxB = 0" "totalSize ctxB = 64"
    unfolding A by (auto simp: fresh_md5_def)
  have b0: "buffered (fresh_md5\<lparr>h := fst r, totalSize := 64\<rparr>) = []"
    by (simp add: buffered_def fresh_md5_def)
  have M: "(\<exists>ctxA hwA. md5Update example_periph fresh_md5 (concat one_and_63) idle_hw = Inr (ctxA, hwA)
         \<and> h ctxA = [0xC8A68462, 0x512F0CEA, 0xFA1C3E5F, 0x7193B5D7]
         \<and> buffered ctxA = [] \<and> size_c ctxA = 0 \<and> totalSize ctxA = 64)
   \<and> (\<exists>ctxB hwB. update_calls (md5Update example_periph) fresh_md5 one_and_63 idle_hw = Inr (ctxB, hwB)
         \<and> h ctxB = [0xC8A68462, 0x512F0CEA, 0xFA1C3E5F, 0x7193B5D7]
         \<and> buffered ctxB = [] \<and> size_c ctxB = 0 \<and> totalSize ctxB = 64)"
    using A B fr b0 by (simp add: fresh_md5_def)
  from v M vs S show ?thesis by blast
qed

text \<open>
  C1 as stated fails on the contents of \<open>buffer\<close>: 64 bytes fed in one call go
  straight to the block engine and leave the buffer as it was, all zero here; the same
  bytes fed as 1 + 63 pass through the buffer and stay in it after the flush.
\<close>

theorem chunked_updates_leave_different_buffers:
  "map_option buffer (session_of (md5Update example_periph fresh_md5 (concat one_and_63) idle_hw))
     = Some (replicate 64 0)
   \<and> map_option buffer (session_of (update_calls (md5Update example_periph) fresh_md5 one_and_63 idle_hw))
     = Some (replicate 64 0x61)"
proof -
  have c: "concat one_and_63 = replicate 64 0x61"
    by (simp add: one_and_63_def flip: replicate_Suc)
  have d: "size_c fresh_md5 = 0" "64 \<le> length (replicate 64 (0x61 :: uint8_t))"
    by (simp_all add: fresh_md5_def)
  have A: "map_option buffer (session_of (md5Update example_periph fresh_md5 (replicate 64 0x61) idle_hw))
     = Some (replicate 64 0)"
    by (simp add: md5Update_def update_loop.simps[of _ _ _ _ "replicate 64 0x61"]
        update_loop.simps[of _ _ _ _ "[]"] update_iteration_direct[OF d] session_of_def)
       (simp add: fresh_md5_def)
  define c1 where "c1 = fresh_md5\<lparr>buffer := 0x61 # replicate 63 0, size_c := 1, totalSize := 1\<rparr>"
  have lt0: "size_c fresh_md5 < 64"
    and nd0: "\<not> (size_c fresh_md5 = 0 \<and> 64 \<le> length [0x61 :: uint8_t])"
    by (simp_all add: fresh_md5_def)
  have i1: "update_iteration example_periph HASH_CTRL_ALGSEL_MD5 (MD5_DIGEST_SIZE div 4)
      (fresh_md5, [0x61], idle_hw) = Inr (c1, [], idle_hw)"
    unfolding update_iteration_buffer[OF lt0 nd0]
    by (simp add: Let_def fresh_md5_def c1_def)
  have u1: "md5Update example_periph fresh_md5 [0x61] idle_hw = Inr (c1, idle_hw)"
    by (simp add: md5Update_def update_loop.simps[of _ _ _ _ "[0x61]"] update_loop.simps[of _ _ _ _ "[]"] i1)
  have f: "size_c c1 < 64" "length (buffer c1) = 64"
    "\<not> (size_c c1 = 0 \<and> 64 \<le> length (replicate 63 (0x61 :: uint8_t)))"
    "64 \<le> unat (size_c c1) + length (replicate 63 (0x61 :: uint8_t))"
    by (simp_all add: c1_def fresh_md5_def)
  have b1: "buffered c1 = [0x61]" by (simp add: buffered_def c1_def)
  have i2: "\<exists>c2 hw2. update_iteration example_periph HASH_CTRL_ALGSEL_MD5 (MD5_DIGEST_SIZE div 4)
      (c1, replicate 63 0x61, idle_hw) = Inr (c2, [], hw2) \<and> buffer c2 = replicate 64 0x61"
    unfolding iteration_flush(1)[OF f] b1
    by (simp add: c1_def flip: replicate_Suc)
  then obtain c2 hw2 where c2: "update_iteration example_periph HASH_CTRL_ALGSEL_MD5 (MD5_DIGEST_SIZE div 4)
      (c1, replicate 63 0x61, idle_hw) = Inr (c2, [], hw2)" "buffer c2 = replicate 64 0x61"
    by blast
  have u2: "md5Update example_periph c1 (replicate 63 0x61) idle_hw = Inr (c2, hw2)"
    by (simp add: md5Update_def update_loop.simps[of _ _ _ _ "replicate 63 0x61"]
        update_loop.simps[of _ _ _ _ "[]"] c2)
  have B: "map_option buffer (session_of (update_calls (md5Update example_periph) fresh_md5 one_and_63 idle_hw))
     = Some (replicate 64 0x61)"
    by (simp add: one_and_63_def u1 u2 session_of_def c2)
  show ?thesis unfolding c using A B by simp
qed

text \<open>
  C2. For every session with \<open>size < 64\<close>, an update call (\<open>md5Update\<close> or
  \<open>sha1Update\<close>) returns a session with \<open>size < 64\<close>. And whenever an iteration of
  the buffering branch brings the buffer to 64 bytes (the bytes buffered so far and the
  next \<open>64 - size\<close> bytes of input), that iteration passes exactly these 64 bytes to
  one \<open>hashProcessData\<close> invocation and leaves \<open>size = 0\<close>.
\<close>

theorem update_keeps_size_below_64:
  "(size_c ctx < 64 \<longrightarrow>
      (\<exists>ctx' hw'. md5Update P ctx data hw = Inr (ctx', hw') \<and> size_c ctx' < 64)
    \<and> (\<exists>ctx' hw'. sha1Update P ctx data hw = Inr (ctx', hw') \<and> size_c ctx' < 64))
   \<and> (size_c ctx < 64 \<longrightarrow> length (buffer ctx) = 64
        \<longrightarrow> \<not> (size_c ctx = 0 \<and> 64 \<le> length data)
        \<longrightarrow> 64 \<le> unat (size_c ctx) + length data \<longrightarrow>
        (let n = 64 - unat (size_c ctx);
             full = buffered ctx @ take n data;
             r = hashProcessData P algo full (h ctx) hLen hw
         in length full = 64
          \<and> update_iteration P algo hLen (ctx, data, hw) =
              Inr (ctx\<lparr>buffer := full, size_c := 0, totalSize := totalSize ctx + of_nat n,
                       h := fst r\<rparr>, drop n data, snd r)
          \<and> invocations (snd r) = Suc (invocations hw)))"
proof (intro conjI impI)
  assume "size_c ctx < 64"
  from update_loop_size_total[OF this]
  show "\<exists>ctx' hw'. md5Update P ctx data hw = Inr (ctx', hw') \<and> size_c ctx' < 64"
    unfolding md5Update_def by blast
next
  assume "size_c ctx < 64"
  from update_loop_size_total[OF this]
  show "\<exists>ctx' hw'. sha1Update P ctx data hw = Inr (ctx', hw') \<and> size_c ctx' < 64"
    unfolding sha1Update_def by blast
next
  assume a: "size_c ctx < 64" "length (buffer ctx) = 64"
    "\<not> (size_c ctx = 0 \<and> 64 \<le> length data)" "64 \<le> unat (size_c ctx) + length data"
  show "let n = 64 - unat (size_c ctx);
             full = buffered ctx @ take n data;
             r = hashProcessData P algo full (h ctx) hLen hw
         in length full = 64
          \<and> update_iteration P algo hLen (ctx, data, hw) =
              Inr (ctx\<lparr>buffer := full, size_c := 0, totalSize := totalSize ctx + of_nat n,
                       h := fst r\<rparr>, drop n data, snd r)
          \<and> invocations (snd r) = Suc (invocations hw)"
    unfolding Let_def
    using iteration_flush(1)[OF a, of P algo hLen hw] iteration_flush(2)[OF a]
      hashProcessData_invocations by simp
qed

theorem update_keeps_size_below_64_witness:
  "size_c nearly_full_md5 < 64 \<and> length (buffer nearly_full_md5) = 64
   \<and> \<not> (size_c nearly_full_md5 = 0 \<and> 64 \<le> length [0x61, 0x62 :: uint8_t])
   \<and> 64 \<le> unat (size_c nearly_full_md5) + length [0x61, 0x62 :: uint8_t]
   \<and> (\<exists>ctx' hw'. md5Update example_periph nearly_full_md5 [0x61, 0x62] idle_hw = Inr (ctx', hw')
          \<and> size_c ctx' < 64)
   \<and> (\<exists>ctx' hw'. sha1Update example_periph nearly_full_md5 [0x61, 0x62] idle_hw = Inr (ctx', hw')
          \<and> size_c ctx' < 64)
   \<and> (\<exists>ctx' hw'. update_iteration example_periph HASH_CTRL_ALGSEL_MD5 4
            (nearly_full_md5, [0x61, 0x62], idle_hw) = Inr (ctx', [0x62], hw')
          \<and> size_c ctx' = 0 \<and> buffer ctx' = replicate 63 0 @ [0x61]
          \<and> invocations hw' = Suc (invocations idle_hw))"
proof -
  have hyps: "size_c nearly_full_md5 < 64" "length (buffer nearly_full_md5) = 64"
    "\<not> (size_c nearly_full_md5 = 0 \<and> 64 \<le> length [0x61, 0x62 :: uint8_t])"
    "64 \<le> unat (size_c nearly_full_md5) + length [0x61, 0x62 :: uint8_t]"
    by (simp_all add: nearly_full_md5_def fresh_md5_def)
  have b: "buffered nearly_full_md5 = replicate 63 0"
    by (simp add: buffered_def nearly_full_md5_def fresh_md5_def)
  have u: "unat (size_c nearly_full_md5) = 63" by (simp add: nearly_full_md5_def)
  show ?thesis
    using update_keeps_size_below_64[of nearly_full_md5 example_periph "[0x61, 0x62]" idle_hw
        HASH_CTRL_ALGSEL_MD5 4] hyps
    by (simp add: Let_def b u)
qed

text \<open>
  C3. After any sequence of update calls on a fresh session (\<open>size = 0\<close>,
  \<open>totalSize = 0\<close>) every call has returned and \<open>totalSize\<close> is the sum of the
  lengths passed, as a 64-bit value; it is that sum exactly as long as the sum is below
  \<open>2 ^ 64\<close>.
\<close>

theorem totalSize_counts_every_byte:
  assumes "size_c ctx = 0" and "totalSize ctx = 0"
  shows "(\<exists>ctx' hw'. update_calls (md5Update P) ctx chunks hw = Inr (ctx', hw')
            \<and> totalSize ctx' = of_nat (sum_list (map length chunks))
            \<and> (sum_list (map length chunks) < 2 ^ 64
                 \<longrightarrow> unat (totalSize ctx') = sum_list (map length chunks)))
       \<and> (\<exists>ctx' hw'. update_calls (sha1Update P) ctx chunks hw = Inr (ctx', hw')
            \<and> totalSize ctx' = of_nat (sum_list (map length chunks))
            \<and> (sum_list (map length chunks) < 2 ^ 64
                 \<longrightarrow> unat (totalSize ctx') = sum_list (map length chunks)))"
proof -
  have lt: "size_c ctx < 64" using assms(1) by simp
  have u: "sum_list (map length chunks) < 2 ^ 64 \<Longrightarrow>
      unat (of_nat (sum_list (map length chunks)) :: uint64_t) = sum_list (map length chunks)"
    by (simp add: unat_of_nat take_bit_nat_eq_self)
  show ?thesis
    using update_calls_size_total[OF lt, of P HASH_CTRL_ALGSEL_MD5 "MD5_DIGEST_SIZE div 4" chunks hw]
      update_calls_size_total[OF lt, of P HASH_CTRL_ALGSEL_SHA1 "SHA1_DIGEST_SIZE div 4" chunks hw]
      u assms(2)
    unfolding md5Update_eq sha1Update_eq by auto
qed

theorem totalSize_counts_every_byte_witness:
  "size_c fresh_md5 = 0 \<and> totalSize fresh_md5 = 0
   \<and> sum_list (map length three_chunks) < (2::nat) ^ 64
   \<and> (\<exists>ctx' hw'. update_calls (md5Update example_periph) fresh_md5 three_chunks idle_hw = Inr (ctx', hw')
         \<and> totalSize ctx' = 80 \<and> unat (totalSize ctx') = 80)"
proof -
  have hyps: "size_c fresh_md5 = 0" "totalSize fresh_md5 = 0" by (simp_all add: fresh_md5_def)
  have s: "sum_list (map length three_chunks) = 80" by (simp add: three_chunks_def)
  show ?thesis
    using totalSize_counts_every_byte[OF hyps, of example_periph three_chunks idle_hw]
    by (simp add: s hyps)
qed

text \<open>
  C4. When the buffer is empty (\<open>size = 0\<close>) and at least 64 bytes of input remain,
  the iteration takes \<open>n = length - length mod 64\<close>, a multiple of 64 that leaves
  fewer than 64 bytes, makes exactly one \<open>hashProcessData\<close> invocation on the first
  \<open>n\<close> bytes with the current state, adds \<open>n\<close> to \<open>totalSize\<close>, and goes on with
  the input after these \<open>n\<close> bytes; \<open>buffer\<close> and \<open>size\<close> are untouched.
\<close>

theorem direct_branch_processes_whole_blocks:
  "size_c ctx = 0 \<longrightarrow> 64 \<le> length data \<longrightarrow>
     (let n = length data - length data mod 64;
          r = hashProcessData P algo (take n data) (h ctx) hLen hw;
          ctx' = ctx\<lparr>h := fst r, totalSize := totalSize ctx + of_nat n\<rparr>
      in 64 dvd n \<and> n \<le> length data \<and> length data - n < 64
       \<and> update_iteration P algo hLen (ctx, data, hw) = Inr (ctx', drop n data, snd r)
       \<and> invocations (snd r) = Suc (invocations hw)
       \<and> update_loop P algo hLen ctx data hw = update_loop P algo hLen ctx' (drop n data) (snd r))
   \<and> (let n = length data - length data mod 64;
          r = hashProcessData P HASH_CTRL_ALGSEL_MD5 (take n data) (h ctx) (MD5_DIGEST_SIZE div 4) hw
        in md5Update P ctx data hw =
             md5Update P (ctx\<lparr>h := fst r, totalSize := totalSize ctx + of_nat n\<rparr>) (drop n data) (snd r))
   \<and> (let n = length data - length data mod 64;
          r = hashProcessData P HASH_CTRL_ALGSEL_SHA1 (take n data) (h ctx) (SHA1_DIGEST_SIZE div 4) hw
        in sha1Update P ctx data hw =
             sha1Update P (ctx\<lparr>h := fst r, totalSize := totalSize ctx + of_nat n\<rparr>) (drop n data) (snd r))"
proof (intro impI)
  assume d: "size_c ctx = 0" "64 \<le> length data"
  have pos: "0 < length data" using d(2) by linarith
  have n: "64 dvd length data - length data mod 64" "length data - length data mod 64 \<le> length data"
    "length data - (length data - length data mod 64) < 64"
    by (simp_all add: dvd_minus_mod direct_length(2)[OF d(2)])
  have loop: "update_loop P algo hLen ctx data hw =
      update_loop P algo hLen
        (ctx\<lparr>h := fst (hashProcessData P algo (take (length data - length data mod 64) data) (h ctx) hLen hw),
              totalSize := totalSize ctx + of_nat (length data - length data mod 64)\<rparr>)
        (drop (length data - length data mod 64) data)
        (snd (hashProcessData P algo (take (length data - length data mod 64) data) (h ctx) hLen hw))"
    for algo hLen
    using pos by (subst update_loop.simps) (simp add: update_iteration_direct[OF d])
  show "(let n = length data - length data mod 64;
          r = hashProcessData P algo (take n data) (h ctx) hLen hw;
          ctx' = ctx\<lparr>h := fst r, totalSize := totalSize ctx + of_nat n\<rparr>
      in 64 dvd n \<and> n \<le> length data \<and> length data - n < 64
       \<and> update_iteration P algo hLen (ctx, data, hw) = Inr (ctx', drop n data, snd r)
       \<and> invocations (snd r) = Suc (invocations hw)
       \<and> update_loop P algo hLen ctx data hw = update_loop P algo hLen ctx' (drop n data) (snd r))
   \<and> (let n = length data - length data mod 64;
          r = hashProcessData P HASH_CTRL_ALGSEL_MD5 (take n data) (h ctx) (MD5_DIGEST_SIZE div 4) hw
        in md5Update P ctx data hw =
             md5Update P (ctx\<lparr>h := fst r, totalSize := totalSize ctx + of_nat n\<rparr>) (drop n data) (snd r))
   \<and> (let n = length data - length data mod 64;
          r = hashProcessData P HASH_CTRL_ALGSEL_SHA1 (take n data) (h ctx) (SHA1_DIGEST_SIZE div 4) hw
        in sha1Update P ctx data hw =
             sha1Update P (ctx\<lparr>h := fst r, totalSize := totalSize ctx + of_nat n\<rparr>) (drop n data) (snd r))"
    unfolding Let_def md5Update_def sha1Update_def
    using n update_iteration_direct[OF d, of P algo hLen hw] hashProcessData_invocations
      loop[of algo hLen] loop[of HASH_CTRL_ALGSEL_MD5 "MD5_DIGEST_SIZE div 4"]
      loop[of HASH_CTRL_ALGSEL_SHA1 "SHA1_DIGEST_SIZE div 4"]
    by (intro conjI) assumption+
qed

theorem direct_branch_processes_whole_blocks_witness:
  "size_c fresh_md5 = 0 \<and> 64 \<le> length (replicate 70 (0x61 :: uint8_t))
   \<and> (let r = hashProcessData example_periph HASH_CTRL_ALGSEL_MD5 (replicate 64 0x61) (h fresh_md5) 4 idle_hw
       in update_iteration example_periph HASH_CTRL_ALGSEL_MD5 4 (fresh_md5, replicate 70 0x61, idle_hw)
            = Inr (fresh_md5\<lparr>h := fst r, totalSize := 64\<rparr>, replicate 6 0x61, snd r)
        \<and> invocations (snd r) = 1
        \<and> md5Update example_periph fresh_md5 (replicate 70 0x61) idle_hw
            = md5Update example_periph (fresh_md5\<lparr>h := fst r, totalSize := 64\<rparr>) (replicate 6 0x61) (snd r))"
proof -
  have hyps: "size_c fresh_md5 = 0" "64 \<le> length (replicate 70 (0x61 :: uint8_t))"
    by (simp_all add: fresh_md5_def)
  have t: "totalSize fresh_md5 = 0" by (simp add: fresh_md5_def)
  have i: "invocations idle_hw = 0" by (simp add: invocations_def idle_hw_def)
  have m: "MD5_DIGEST_SIZE div 4 = 4" by (simp add: MD5_DIGEST_SIZE_def)
  show ?thesis
    using direct_branch_processes_whole_blocks[of fresh_md5 "replicate 70 0x61" example_periph
        HASH_CTRL_ALGSEL_MD5 4 idle_hw] hyps
    by (simp add: Let_def t i m)
qed

text \<open>
  C5, as amended. \<open>md5Update\<close> and \<open>sha1Update\<close> have no post-finalize lockout:
  the context has no field that records finalisation and the functions report no status.
  On every session with \<open>size < 64\<close>, finalized or not, a call with
  \<open>1 \<le> length < 2 ^ 64\<close> returns normally and changes the session: \<open>totalSize\<close>
  grows by \<open>length\<close>. On every session with a 64-byte buffer, \<open>size < 64\<close> and
  4 resp. 5 state words, finalized or not, the call absorbs the bytes: with the buffered
  bytes followed by the new ones as input, \<open>h\<close> becomes the state of the block engine
  after the whole 64-byte blocks of the input, and the bytes left over are the bytes
  buffered afterwards. In particular, when buffered and new bytes together are fewer
  than 64, \<open>h\<close> is unchanged and the new bytes are appended to the buffered ones.
\<close>

theorem update_after_finalize_is_processed:
  "(size_c ctx < 64 \<longrightarrow> data \<noteq> [] \<longrightarrow> length data < 2 ^ 64 \<longrightarrow>
     (\<exists>ctx' hw'. md5Update P ctx data hw = Inr (ctx', hw')
        \<and> totalSize ctx' = totalSize ctx + of_nat (length data) \<and> totalSize ctx' \<noteq> totalSize ctx)
   \<and> (\<exists>ctx' hw'. sha1Update P ctx data hw = Inr (ctx', hw')
        \<and> totalSize ctx' = totalSize ctx + of_nat (length data) \<and> totalSize ctx' \<noteq> totalSize ctx))
   \<and> (valid_context (MD5_DIGEST_SIZE div 4) ctx \<longrightarrow>
        (\<exists>ctx' hw'. md5Update P ctx data hw = Inr (ctx', hw')
           \<and> h ctx' = absorbed_state P HASH_CTRL_ALGSEL_MD5 ctx data
           \<and> buffered ctx' = absorbed_rest ctx data
           \<and> totalSize ctx' = totalSize ctx + of_nat (length data)))
   \<and> (valid_context (SHA1_DIGEST_SIZE div 4) ctx \<longrightarrow>
        (\<exists>ctx' hw'. sha1Update P ctx data hw = Inr (ctx', hw')
           \<and> h ctx' = absorbed_state P HASH_CTRL_ALGSEL_SHA1 ctx data
           \<and> buffered ctx' = absorbed_rest ctx data
           \<and> totalSize ctx' = totalSize ctx + of_nat (length data)))
   \<and> (length (buffered ctx @ data) < 64 \<longrightarrow>
        absorbed_state P algo ctx data = h ctx \<and> absorbed_rest ctx data = buffered ctx @ data)"
proof (intro conjI)
  show "size_c ctx < 64 \<longrightarrow> data \<noteq> [] \<longrightarrow> length data < 2 ^ 64 \<longrightarrow>
     (\<exists>ctx' hw'. md5Update P ctx data hw = Inr (ctx', hw')
        \<and> totalSize ctx' = totalSize ctx + of_nat (length data) \<and> totalSize ctx' \<noteq> totalSize ctx)
   \<and> (\<exists>ctx' hw'. sha1Update P ctx data hw = Inr (ctx', hw')
        \<and> totalSize ctx' = totalSize ctx + of_nat (length data) \<and> totalSize ctx' \<noteq> totalSize ctx)"
  proof (intro impI)
    assume lt: "size_c ctx < 64" and ne: "data \<noteq> []" and len: "length data < 2 ^ 64"
    have "unat (of_nat (length data) :: uint64_t) = length data"
      using len by (simp add: unat_of_nat take_bit_nat_eq_self)
    then have "(of_nat (length data) :: uint64_t) \<noteq> 0" using ne by (metis length_0_conv unat_0)
    then have ch: "totalSize ctx + of_nat (length data) \<noteq> totalSize ctx" by simp
    show "(\<exists>ctx' hw'. md5Update P ctx data hw = Inr (ctx', hw')
          \<and> totalSize ctx' = totalSize ctx + of_nat (length data) \<and> totalSize ctx' \<noteq> totalSize ctx)
     \<and> (\<exists>ctx' hw'. sha1Update P ctx data hw = Inr (ctx', hw')
          \<and> totalSize ctx' = totalSize ctx + of_nat (length data) \<and> totalSize ctx' \<noteq> totalSize ctx)"
      using update_loop_size_total[OF lt, of P HASH_CTRL_ALGSEL_MD5 "MD5_DIGEST_SIZE div 4" data hw]
        update_loop_size_total[OF lt, of P HASH_CTRL_ALGSEL_SHA1 "SHA1_DIGEST_SIZE div 4" data hw] ch
      unfolding md5Update_def sha1Update_def by auto
  qed
next
  show "valid_context (MD5_DIGEST_SIZE div 4) ctx \<longrightarrow>
        (\<exists>ctx' hw'. md5Update P ctx data hw = Inr (ctx', hw')
           \<and> h ctx' = absorbed_state P HASH_CTRL_ALGSEL_MD5 ctx data
           \<and> buffered ctx' = absorbed_rest ctx data
           \<and> totalSize ctx' = totalSize ctx + of_nat (length data))"
  proof
    assume v: "valid_context (MD5_DIGEST_SIZE div 4) ctx"
    have s: "MD5_DIGEST_SIZE div 4 = state_words HASH_CTRL_ALGSEL_MD5" by simp
    show "\<exists>ctx' hw'. md5Update P ctx data hw = Inr (ctx', hw')
           \<and> h ctx' = absorbed_state P HASH_CTRL_ALGSEL_MD5 ctx data
           \<and> buffered ctx' = absorbed_rest ctx data
           \<and> totalSize ctx' = totalSize ctx + of_nat (length data)"
      using update_loop_absorbs[OF v s, of P data hw] unfolding md5Update_def by blast
  qed
next
  show "valid_context (SHA1_DIGEST_SIZE div 4) ctx \<longrightarrow>
        (\<exists>ctx' hw'. sha1Update P ctx data hw = Inr (ctx', hw')
           \<and> h ctx' = absorbed_state P HASH_CTRL_ALGSEL_SHA1 ctx data
           \<and> buffered ctx' = absorbed_rest ctx data
           \<and> totalSize ctx' = totalSize ctx + of_nat (length data))"
  proof
    assume v: "valid_context (SHA1_DIGEST_SIZE div 4) ctx"
    have s: "SHA1_DIGEST_SIZE div 4 = state_words HASH_CTRL_ALGSEL_SHA1" by simp
    show "\<exists>ctx' hw'. sha1Update P ctx data hw = Inr (ctx', hw')
           \<and> h ctx' = absorbed_state P HASH_CTRL_ALGSEL_SHA1 ctx data
           \<and> buffered ctx' = absorbed_rest ctx data
           \<and> totalSize ctx' = totalSize ctx + of_nat (length data)"
      using update_loop_absorbs[OF v s, of P data hw] unfolding sha1Update_def by blast
  qed
next
  show "length (buffered ctx @ data) < 64 \<longrightarrow>
        absorbed_state P algo ctx data = h ctx \<and> absorbed_rest ctx data = buffered ctx @ data"
  proof
    assume l: "length (buffered ctx @ data) < 64"
    then have "length (buffered ctx @ data) mod 64 = length (buffered ctx @ data)" by simp
    then have "absorbed_rest ctx data = buffered ctx @ data"
      unfolding absorbed_rest_def by simp
    then show "absorbed_state P algo ctx data = h ctx \<and> absorbed_rest ctx data = buffered ctx @ data"
      using hash_engine_short[OF l] by (simp add: absorbed_state_def)
  qed
qed

theorem update_after_finalize_is_processed_witness:
  "size_c finalized_md5 < 64 \<and> [0x61 :: uint8_t] \<noteq> [] \<and> length [0x61 :: uint8_t] < 2 ^ 64
   \<and> valid_context (MD5_DIGEST_SIZE div 4) finalized_md5
   \<and> length (buffered finalized_md5 @ [0x61]) < 64
   \<and> (\<exists>ctx' hw'. md5Update example_periph finalized_md5 [0x61] idle_hw = Inr (ctx', hw')
        \<and> h ctx' = h finalized_md5
        \<and> buffered ctx' = 0x80 # replicate 55 0 @ [0x61]
        \<and> totalSize ctx' = totalSize finalized_md5 + 1 \<and> totalSize ctx' \<noteq> totalSize finalized_md5)"
proof -
  have hyps: "size_c finalized_md5 < 64" "[0x61 :: uint8_t] \<noteq> []" "length [0x61 :: uint8_t] < 2 ^ 64"
    by (simp_all add: finalized_md5_def)
  have v: "valid_context (MD5_DIGEST_SIZE div 4) finalized_md5"
    by (simp add: valid_context_def finalized_md5_def MD5_DIGEST_SIZE_def)
  have b: "buffered finalized_md5 = 0x80 # replicate 55 0"
    by (simp add: buffered_def finalized_md5_def)
  have l: "length (buffered finalized_md5 @ [0x61]) < 64" by (simp add: b)
  show ?thesis
    using update_after_finalize_is_processed[of finalized_md5 "[0x61]" example_periph idle_hw
        HASH_CTRL_ALGSEL_MD5] hyps v l
    by (auto simp: b)
qed

text \<open>
  C5 as stated fails: on a finalized session an update call with one byte is not
  rejected; the byte is buffered and counted.
\<close>

theorem update_after_finalize_not_rejected:
  "md5Update example_periph finalized_md5 [0x61] idle_hw =
     Inr (finalized_md5\<lparr>buffer := 0x80 # replicate 55 0 @ 0x61 # replicate 7 0, size_c := 57, totalSize := 57\<rparr>,
          idle_hw)"
proof -
  have lt: "size_c finalized_md5 < 64"
    and nd: "\<not> (size_c finalized_md5 = 0 \<and> 64 \<le> length [0x61 :: uint8_t])"
    by (simp_all add: finalized_md5_def)
  have i: "update_iteration example_periph HASH_CTRL_ALGSEL_MD5 (MD5_DIGEST_SIZE div 4)
      (finalized_md5, [0x61], idle_hw) =
        Inr (finalized_md5\<lparr>buffer := 0x80 # replicate 55 0 @ 0x61 # replicate 7 0, size_c := 57, totalSize := 57\<rparr>,
          [], idle_hw)"
    unfolding update_iteration_buffer[OF lt nd]
    by (simp add: Let_def finalized_md5_def)
  show ?thesis
    by (simp add: md5Update_def update_loop.simps[of _ _ _ _ "[0x61]"] update_loop.simps[of _ _ _ _ "[]"] i)
qed

text \<open>
  C6. Engine exclusivity. Every \<open>hashProcessData\<close> invocation acquires the mutex
  before its first access to the engine and releases it after its last: its accesses are
  the acquisition, then accesses to the registers of the engine, then the release. Hence
  in every execution of concurrent contexts that run \<open>hashProcessData\<close> invocations
  and in which the mutex is acquired only while no other context holds it, at every
  moment the context inside a critical section is the holder of the mutex, no two
  contexts are inside their critical sections together, and every access to the engine
  is made by the holder of the mutex, inside its critical section, while no other
  context is inside one: no two block runs are interleaved on the shared engine.
\<close>

theorem engine_exclusivity:
  "(\<exists>body. invocation_trace c = AcquireMutex # body @ [ReleaseMutex]
       \<and> list_all is_engine_access body)
   \<and> (interleaving es threads \<longrightarrow> respects_mutex None es \<longrightarrow>
        (\<forall>i\<le>length es.
           (\<forall>t. critical t (take i es) \<longleftrightarrow> holder (take i es) = Some t)
         \<and> (\<forall>t u. critical t (take i es) \<longrightarrow> critical u (take i es) \<longrightarrow> t = u)
         \<and> (i < length es \<longrightarrow> is_engine_access (snd (es ! i)) \<longrightarrow>
              holder (take i es) = Some (fst (es ! i))
              \<and> critical (fst (es ! i)) (take i es)
              \<and> (\<forall>u. critical u (take i es) \<longrightarrow> u = fst (es ! i)))))"
proof (rule conjI)
  show "\<exists>body. invocation_trace c = AcquireMutex # body @ [ReleaseMutex]
       \<and> list_all is_engine_access body"
    using invocation_trace_shape .
next
  show "interleaving es threads \<longrightarrow> respects_mutex None es \<longrightarrow>
        (\<forall>i\<le>length es.
           (\<forall>t. critical t (take i es) \<longleftrightarrow> holder (take i es) = Some t)
         \<and> (\<forall>t u. critical t (take i es) \<longrightarrow> critical u (take i es) \<longrightarrow> t = u)
         \<and> (i < length es \<longrightarrow> is_engine_access (snd (es ! i)) \<longrightarrow>
              holder (take i es) = Some (fst (es ! i))
              \<and> critical (fst (es ! i)) (take i es)
              \<and> (\<forall>u. critical u (take i es) \<longrightarrow> u = fst (es ! i))))"
  proof (rule impI, rule impI, rule allI, rule impI)
  fix i
  assume il: "interleaving es threads" and rs: "respects_mutex None es"
  have br: "\<And>j. \<forall>t. bracketed False (thread_accesses t (take j es))"
    using interleaving_bracketed[OF il] bracketed_thread_take by blast
  have rm: "\<And>j. respects_mutex None (take j es)" using respects_mutex_take[OF rs] .
  have inv: "\<forall>t. critical t (take i es) \<longleftrightarrow> holder (take i es) = Some t"
    using holder_is_critical[OF br rm] .
  have uniq: "\<forall>t u. critical t (take i es) \<longrightarrow> critical u (take i es) \<longrightarrow> t = u"
    using inv by auto
  have acc: "i < length es \<longrightarrow> is_engine_access (snd (es ! i)) \<longrightarrow>
              holder (take i es) = Some (fst (es ! i))
              \<and> critical (fst (es ! i)) (take i es)
              \<and> (\<forall>u. critical u (take i es) \<longrightarrow> u = fst (es ! i))"
  proof (intro impI)
    assume i: "i < length es" and ea: "is_engine_access (snd (es ! i))"
    obtain u a where e: "es ! i = (u, a)" by (cases "es ! i")
    have "take (Suc i) es = take i es @ [(u, a)]"
      using i e by (simp add: take_Suc_conv_app_nth)
    then have "bracketed False (thread_accesses u (take i es) @ [a])"
      using br[of "Suc i", rule_format, of u] by (simp add: thread_accesses_snoc)
    then have "bracketed (critical u (take i es)) [a]"
      by (simp add: bracketed_append critical_def)
    moreover have "a \<noteq> AcquireMutex" using ea e by auto
    ultimately have "critical u (take i es)" by simp
    then show "holder (take i es) = Some (fst (es ! i))
              \<and> critical (fst (es ! i)) (take i es)
              \<and> (\<forall>u. critical u (take i es) \<longrightarrow> u = fst (es ! i))"
      using uniq inv e by auto
  qed
  show "(\<forall>t. critical t (take i es) \<longleftrightarrow> holder (take i es) = Some t)
         \<and> (\<forall>t u. critical t (take i es) \<longrightarrow> critical u (take i es) \<longrightarrow> t = u)
         \<and> (i < length es \<longrightarrow> is_engine_access (snd (es ! i)) \<longrightarrow>
              holder (take i es) = Some (fst (es ! i))
              \<and> critical (fst (es ! i)) (take i es)
              \<and> (\<forall>u. critical u (take i es) \<longrightarrow> u = fst (es ! i)))"
    using inv uniq acc by blast
  qed
qed

theorem engine_exclusivity_witness:
  "interleaving serial_runs two_threads \<and> respects_mutex None serial_runs
   \<and> length serial_runs = 74
   \<and> serial_runs ! 40 = (1, Write_CTSWAP 6 1)
   \<and> holder (take 40 serial_runs) = Some 1
   \<and> critical 1 (take 40 serial_runs) \<and> \<not> critical 0 (take 40 serial_runs)"
proof -
  have i: "interleaving serial_runs two_threads"
    by (simp add: interleaving_def serial_runs_def two_threads_def invocation_trace_example
        thread_accesses_def thread_trace_def numeral_2_eq_2)
  have r: "respects_mutex None serial_runs"
    by (simp add: serial_runs_def invocation_trace_example)
  have l: "length serial_runs = 74" and e: "serial_runs ! 40 = (1, Write_CTSWAP 6 1)"
    by (simp_all add: serial_runs_def invocation_trace_example)
  have le: "40 \<le> length serial_runs" and lt: "40 < length serial_runs"
    by (simp_all add: l)
  have ea: "is_engine_access (snd (serial_runs ! 40))" by (simp add: e)
  note x = engine_exclusivity[of example_call serial_runs two_threads, THEN conjunct2,
      THEN mp, OF i, THEN mp, OF r, THEN spec, of 40, THEN mp, OF le]
  have c: "\<forall>t. critical t (take 40 serial_runs) \<longleftrightarrow> holder (take 40 serial_runs) = Some t"
    using x[THEN conjunct1] .
  have "holder (take 40 serial_runs) = Some (fst (serial_runs ! 40))"
    using x[THEN conjunct2, THEN conjunct2, THEN mp, OF lt, THEN mp, OF ea, THEN conjunct1] .
  then have h: "holder (take 40 serial_runs) = Some 1" by (simp add: e)
  have c1: "critical 1 (take 40 serial_runs)" using c[THEN spec, of 1] h by simp
  have c0: "\<not> critical 0 (take 40 serial_runs)" using c[THEN spec, of 0] h by simp
  show ?thesis using i r l e h c1 c0 by simp
qed

text \<open>
  The mutex is what excludes the overlap: the execution in which the second context
  runs in the middle of the invocation of the first interleaves the same two
  invocations, with both contexts inside their critical sections at once, and it is
  not an execution the mutex allows.
\<close>

lemma overlapping_runs_rejected:
  "interleaving overlapping_runs two_threads \<and> \<not> respects_mutex None overlapping_runs
   \<and> overlapping_runs ! 21 = (1, Write_CTRL HASH_CTRL_ALGSEL_MD5)
   \<and> critical 0 (take 21 overlapping_runs) \<and> critical 1 (take 21 overlapping_runs)"
  by (simp add: interleaving_def overlapping_runs_def two_threads_def invocation_trace_example
        thread_accesses_def thread_trace_def numeral_2_eq_2 critical_def)

text \<open>
  C7. Every \<open>hashProcessData\<close> invocation on a state \<open>h\<close> of at least \<open>hLen\<close> words
  acquires the mutex, selects the algorithm and starts a digest calculation, then writes
  \<open>h[i]\<close> to \<open>CTSWAP[6 + i]\<close> and to \<open>CTSWAP[14 + i]\<close> for every \<open>i < hLen\<close>,
  before any word of data is written to INDATA (for \<open>hLen \<le> 8\<close>, where the two banks
  do not overlap, both then hold \<open>h\<close>); the data phase only writes INDATA, once per
  word of each whole block and once more for the final zero, and polls STS; after it the
  state is read from \<open>CTSWAP[14 + i]\<close>, \<open>i < hLen\<close>, and from no other CTSWAP
  register, the values read are the \<open>h\<close> returned, and the mutex is released.
\<close>

theorem hashProcessData_seeds_both_banks:
  assumes "hLen \<le> length hv"
  shows "\<exists>feed.
      accesses (snd (hashProcessData P algo data hv hLen hw)) =
        accesses hw @ [AcquireMutex, Write_CTRL algo, Set_CTRL_INITCAL]
          @ concat (map (\<lambda>i. [Write_CTSWAP (6 + i) (hv ! i), Write_CTSWAP (14 + i) (hv ! i)]) [0..<hLen])
          @ feed
          @ map (\<lambda>i. Read_CTSWAP (14 + i)) [0..<hLen] @ [ReleaseMutex]
    \<and> list_all is_data_access feed
    \<and> length (filter (\<lambda>a. a \<noteq> Read_STS) feed) = 16 * (length data div 64) + 1
    \<and> (hLen \<le> 8 \<longrightarrow>
         (\<forall>i<hLen.
             CTSWAP (restore_hash_value hv hLen
                (set_CTRL_INITCAL (write_CTRL algo (hw_log AcquireMutex hw)))) (6 + i) = hv ! i
           \<and> CTSWAP (restore_hash_value hv hLen
                (set_CTRL_INITCAL (write_CTRL algo (hw_log AcquireMutex hw)))) (14 + i) = hv ! i))
    \<and> take hLen (fst (hashProcessData P algo data hv hLen hw)) =
           map (\<lambda>i. CTSWAP (snd (hashProcessData P algo data hv hLen hw)) (14 + i)) [0..<hLen]"
proof -
  obtain feed where f: "accesses (snd (hashProcessData P algo data hv hLen hw)) =
        accesses hw @ [AcquireMutex, Write_CTRL algo, Set_CTRL_INITCAL]
          @ concat (map (\<lambda>i. [Write_CTSWAP (6 + i) (hv ! i), Write_CTSWAP (14 + i) (hv ! i)]) [0..<hLen])
          @ feed
          @ map (\<lambda>i. Read_CTSWAP (14 + i)) [0..<hLen] @ [ReleaseMutex]"
    "list_all is_data_access feed"
    "length (filter (\<lambda>a. a \<noteq> Read_STS) feed) = 16 * (length data div 64) + 1"
    using hashProcessData_accesses by blast
  have banks: "hLen \<le> 8 \<longrightarrow>
         (\<forall>i<hLen.
             CTSWAP (restore_hash_value hv hLen
                (set_CTRL_INITCAL (write_CTRL algo (hw_log AcquireMutex hw)))) (6 + i) = hv ! i
           \<and> CTSWAP (restore_hash_value hv hLen
                (set_CTRL_INITCAL (write_CTRL algo (hw_log AcquireMutex hw)))) (14 + i) = hv ! i)"
    by (auto simp: restore_hash_value_CTSWAP)
  have readback: "take hLen (fst (hashProcessData P algo data hv hLen hw)) =
           map (\<lambda>i. CTSWAP (snd (hashProcessData P algo data hv hLen hw)) (14 + i)) [0..<hLen]"
    using assms by (simp add: hashProcessData_unfold save_hash_value_fst save_hash_value_snd)
  from f banks readback show ?thesis by blast
qed

theorem hashProcessData_seeds_both_banks_witness:
  "(4::nat) \<le> length [1, 2, 3, 4 :: uint32_t] \<and> (4::nat) \<le> 8
   \<and> hashProcessData example_periph HASH_CTRL_ALGSEL_MD5 (replicate 64 0x61) [1, 2, 3, 4] 4 idle_hw
       = ([0x61616162, 0x61616163, 0x61616164, 0x61616165],
          snd (hashProcessData example_periph HASH_CTRL_ALGSEL_MD5 (replicate 64 0x61) [1, 2, 3, 4] 4 idle_hw))
   \<and> accesses (snd (hashProcessData example_periph HASH_CTRL_ALGSEL_MD5 (replicate 64 0x61) [1, 2, 3, 4] 4 idle_hw)) =
       [AcquireMutex, Write_CTRL HASH_CTRL_ALGSEL_MD5, Set_CTRL_INITCAL,
        Write_CTSWAP 6 1, Write_CTSWAP 14 1, Write_CTSWAP 7 2, Write_CTSWAP 15 2,
        Write_CTSWAP 8 3, Write_CTSWAP 16 3, Write_CTSWAP 9 4, Write_CTSWAP 17 4,
        Write_INDATA 0x61616161, Read_STS,
        Write_INDATA 0x61616161, Write_INDATA 0x61616161, Write_INDATA 0x61616161,
        Write_INDATA 0x61616161, Write_INDATA 0x61616161, Write_INDATA 0x61616161,
        Write_INDATA 0x61616161, Write_INDATA 0x61616161, Write_INDATA 0x61616161,
        Write_INDATA 0x61616161, Write_INDATA 0x61616161, Write_INDATA 0x61616161,
        Write_INDATA 0x61616161, Write_INDATA 0x61616161, Write_INDATA 0x61616161,
        Write_INDATA 0, Read_STS, Read_STS, Read_STS,
        Read_CTSWAP 14, Read_CTSWAP 15, Read_CTSWAP 16, Read_CTSWAP 17, ReleaseMutex]
   \<and> map (\<lambda>i. CTSWAP (snd (hashProcessData example_periph HASH_CTRL_ALGSEL_MD5 (replicate 64 0x61)
              [1, 2, 3, 4] 4 idle_hw)) (14 + i)) [0..<4]
       = [0x61616162, 0x61616163, 0x61616164, 0x61616165]"
proof -
  have len: "(4::nat) \<le> length [1, 2, 3, 4 :: uint32_t]" by simp
  have hl: "(4::nat) = state_words HASH_CTRL_ALGSEL_MD5" by (simp add: MD5_DIGEST_SIZE_def)
  have l4: "length [1, 2, 3, 4 :: uint32_t] = 4" by simp
  have e: "fst (hashProcessData example_periph HASH_CTRL_ALGSEL_MD5 (replicate 64 0x61) [1, 2, 3, 4] 4 idle_hw)
      = [0x61616162, 0x61616163, 0x61616164, 0x61616165]"
    using hashProcessData_engine[OF hl l4, of example_periph "replicate 64 0x61" idle_hw]
    by (simp only: hash_engine_example)
  have v: "hashProcessData example_periph HASH_CTRL_ALGSEL_MD5 (replicate 64 0x61) [1, 2, 3, 4] 4 idle_hw
       = ([0x61616162, 0x61616163, 0x61616164, 0x61616165],
          snd (hashProcessData example_periph HASH_CTRL_ALGSEL_MD5 (replicate 64 0x61) [1, 2, 3, 4] 4 idle_hw))"
    using e by (metis prod.collapse)
  from hashProcessData_seeds_both_banks[OF len, of example_periph HASH_CTRL_ALGSEL_MD5
        "replicate 64 0x61" idle_hw]
  have "take 4 (fst (hashProcessData example_periph HASH_CTRL_ALGSEL_MD5 (replicate 64 0x61)
              [1, 2, 3, 4] 4 idle_hw)) =
        map (\<lambda>i. CTSWAP (snd (hashProcessData example_periph HASH_CTRL_ALGSEL_MD5 (replicate 64 0x61)
              [1, 2, 3, 4] 4 idle_hw)) (14 + i)) [0..<4]"
    by blast
  then have r: "map (\<lambda>i. CTSWAP (snd (hashProcessData example_periph HASH_CTRL_ALGSEL_MD5 (replicate 64 0x61)
              [1, 2, 3, 4] 4 idle_hw)) (14 + i)) [0..<4]
       = [0x61616162, 0x61616163, 0x61616164, 0x61616165]"
    by (simp add: e)
  show ?thesis using v hashProcessData_trace_example r by simp
qed

text \<open>
  C10, as amended. With \<open>size < 64\<close> on entry every iteration of the loop of
  \<open>md5Update\<close> / \<open>sha1Update\<close> consumes at least one byte and leaves
  \<open>size < 64\<close>, so the loop exits within \<open>length\<close> iterations and the call
  returns. The loop also terminates from \<open>size = 64\<close>: the first iteration copies no
  byte, flushes the buffer through the block engine and resets \<open>size\<close> to 0, and the
  loop exits within \<open>length + 1\<close> iterations. With \<open>size > 64\<close> and input left, the
  buffering branch copies at least one byte outside the 64-byte buffer (the
  \<open>size_t\<close> subtraction \<open>64 - size\<close> wraps around), which C leaves undefined.
\<close>

theorem update_loop_terminates:
  "(size_c ctx < 64 \<longrightarrow> data \<noteq> [] \<longrightarrow>
      (\<exists>ctx' data' hw'. update_iteration P algo hLen (ctx, data, hw) = Inr (ctx', data', hw')
          \<and> size_c ctx' < 64 \<and> length data' < length data))
   \<and> (size_c ctx < 64 \<longrightarrow>
        update_loop_bounded (length data) P HASH_CTRL_ALGSEL_MD5 (MD5_DIGEST_SIZE div 4) ctx data hw
          = Some (md5Update P ctx data hw)
      \<and> update_loop_bounded (length data) P HASH_CTRL_ALGSEL_SHA1 (SHA1_DIGEST_SIZE div 4) ctx data hw
          = Some (sha1Update P ctx data hw)
      \<and> (\<exists>ctx' hw'. md5Update P ctx data hw = Inr (ctx', hw'))
      \<and> (\<exists>ctx' hw'. sha1Update P ctx data hw = Inr (ctx', hw')))
   \<and> (size_c ctx = 64 \<longrightarrow>
        update_iteration P algo hLen (ctx, data, hw) =
          Inr (ctx\<lparr>h := fst (hashProcessData P algo (take 64 (buffer ctx)) (h ctx) hLen hw),
                    size_c := 0\<rparr>,
               data,
               snd (hashProcessData P algo (take 64 (buffer ctx)) (h ctx) hLen hw))
      \<and> update_loop_bounded (Suc (length data)) P HASH_CTRL_ALGSEL_MD5 (MD5_DIGEST_SIZE div 4) ctx data hw
          = Some (md5Update P ctx data hw)
      \<and> update_loop_bounded (Suc (length data)) P HASH_CTRL_ALGSEL_SHA1 (SHA1_DIGEST_SIZE div 4) ctx data hw
          = Some (sha1Update P ctx data hw))
   \<and> (64 < size_c ctx \<longrightarrow> data \<noteq> [] \<longrightarrow>
        update_iteration P algo hLen (ctx, data, hw) = Inl BufferOverflow)"
proof (intro conjI impI)
  assume lt: "size_c ctx < 64" and ne: "data \<noteq> []"
  from iteration_progress[OF this, of P algo hLen hw]
  show "\<exists>ctx' data' hw'. update_iteration P algo hLen (ctx, data, hw) = Inr (ctx', data', hw')
          \<and> size_c ctx' < 64 \<and> length data' < length data"
    by blast
next
  assume lt: "size_c ctx < 64"
  show "update_loop_bounded (length data) P HASH_CTRL_ALGSEL_MD5 (MD5_DIGEST_SIZE div 4) ctx data hw
          = Some (md5Update P ctx data hw)"
    unfolding md5Update_def by (rule update_loop_bounded_enough[OF lt order_refl])
  show "update_loop_bounded (length data) P HASH_CTRL_ALGSEL_SHA1 (SHA1_DIGEST_SIZE div 4) ctx data hw
          = Some (sha1Update P ctx data hw)"
    unfolding sha1Update_def by (rule update_loop_bounded_enough[OF lt order_refl])
  show "\<exists>ctx' hw'. md5Update P ctx data hw = Inr (ctx', hw')"
    unfolding md5Update_def using update_loop_size_total[OF lt] by blast
  show "\<exists>ctx' hw'. sha1Update P ctx data hw = Inr (ctx', hw')"
    unfolding sha1Update_def using update_loop_size_total[OF lt] by blast
next
  assume full: "size_c ctx = 64"
  show "update_iteration P algo hLen (ctx, data, hw) =
          Inr (ctx\<lparr>h := fst (hashProcessData P algo (take 64 (buffer ctx)) (h ctx) hLen hw),
                    size_c := 0\<rparr>,
               data,
               snd (hashProcessData P algo (take 64 (buffer ctx)) (h ctx) hLen hw))"
    by (rule update_iteration_full[OF full])
  show "update_loop_bounded (Suc (length data)) P HASH_CTRL_ALGSEL_MD5 (MD5_DIGEST_SIZE div 4) ctx data hw
          = Some (md5Update P ctx data hw)"
    unfolding md5Update_def by (rule update_loop_bounded_from_full[OF full])
  show "update_loop_bounded (Suc (length data)) P HASH_CTRL_ALGSEL_SHA1 (SHA1_DIGEST_SIZE div 4) ctx data hw
          = Some (sha1Update P ctx data hw)"
    unfolding sha1Update_def by (rule update_loop_bounded_from_full[OF full])
next
  assume "64 < size_c ctx" and "data \<noteq> []"
  then show "update_iteration P algo hLen (ctx, data, hw) = Inl BufferOverflow"
    by (rule update_iteration_overflow)
qed

theorem update_loop_terminates_witness:
  "size_c fresh_md5 < 64 \<and> [0x61 :: uint8_t] \<noteq> []
   \<and> (\<exists>ctx' data' hw'. update_iteration example_periph HASH_CTRL_ALGSEL_MD5 4 (fresh_md5, [0x61], idle_hw)
          = Inr (ctx', data', hw') \<and> size_c ctx' < 64 \<and> length data' < length [0x61 :: uint8_t])
   \<and> update_loop_bounded (length [0x61 :: uint8_t]) example_periph HASH_CTRL_ALGSEL_MD5 (MD5_DIGEST_SIZE div 4)
        fresh_md5 [0x61] idle_hw = Some (md5Update example_periph fresh_md5 [0x61] idle_hw)
   \<and> (\<exists>ctx' hw'. md5Update example_periph fresh_md5 [0x61] idle_hw = Inr (ctx', hw'))
   \<and> size_c full_md5 = 64
   \<and> update_loop_bounded (Suc (length [0x61 :: uint8_t])) example_periph HASH_CTRL_ALGSEL_MD5
        (MD5_DIGEST_SIZE div 4) full_md5 [0x61] idle_hw
        = Some (md5Update example_periph full_md5 [0x61] idle_hw)
   \<and> 64 < size_c overfull_md5
   \<and> update_iteration example_periph HASH_CTRL_ALGSEL_MD5 4 (overfull_md5, [0x61], idle_hw)
        = Inl BufferOverflow"
proof -
  have hyps: "size_c fresh_md5 < 64" "[0x61 :: uint8_t] \<noteq> []" "size_c full_md5 = 64"
    "64 < size_c overfull_md5"
    by (simp_all add: fresh_md5_def full_md5_def overfull_md5_def)
  show ?thesis
    using update_loop_terminates[of fresh_md5 "[0x61]" example_periph HASH_CTRL_ALGSEL_MD5 4 idle_hw]
      update_loop_terminates[of full_md5 "[0x61]" example_periph HASH_CTRL_ALGSEL_MD5 4 idle_hw]
      update_loop_terminates[of overfull_md5 "[0x61]" example_periph HASH_CTRL_ALGSEL_MD5 4 idle_hw]
      hyps
    by simp
qed

text \<open>
  C10 as stated fails in its last part: from \<open>size = 64\<close> with one byte of input the
  loop does make progress; it exits after two iterations with the byte consumed.
\<close>

theorem update_makes_progress_from_full_buffer:
  "update_loop_bounded 2 example_periph HASH_CTRL_ALGSEL_MD5 (MD5_DIGEST_SIZE div 4) full_md5 [0x61] idle_hw
     = Some (md5Update example_periph full_md5 [0x61] idle_hw)
   \<and> map_option size_c (session_of (md5Update example_periph full_md5 [0x61] idle_hw)) = Some 1
   \<and> map_option totalSize (session_of (md5Update example_periph full_md5 [0x61] idle_hw)) = Some 65"
proof -
  define r where "r = hashProcessData example_periph HASH_CTRL_ALGSEL_MD5 (take 64 (buffer full_md5))
      (h full_md5) (MD5_DIGEST_SIZE div 4) idle_hw"
  define c1 where "c1 = full_md5\<lparr>h := fst r, size_c := 0\<rparr>"
  have f: "size_c full_md5 = 64" by (simp add: full_md5_def)
  have i1: "update_iteration example_periph HASH_CTRL_ALGSEL_MD5 (MD5_DIGEST_SIZE div 4)
      (full_md5, [0x61], idle_hw) = Inr (c1, [0x61], snd r)"
    unfolding update_iteration_full[OF f] c1_def r_def ..
  have lt: "size_c c1 < 64" and nd: "\<not> (size_c c1 = 0 \<and> 64 \<le> length [0x61 :: uint8_t])"
    by (simp_all add: c1_def)
  have i2: "\<exists>c2. update_iteration example_periph HASH_CTRL_ALGSEL_MD5 (MD5_DIGEST_SIZE div 4)
      (c1, [0x61], snd r) = Inr (c2, [], snd r) \<and> size_c c2 = 1 \<and> totalSize c2 = 65"
    unfolding update_iteration_buffer[OF lt nd]
    by (simp add: Let_def c1_def full_md5_def)
  then obtain c2 where c2: "update_iteration example_periph HASH_CTRL_ALGSEL_MD5 (MD5_DIGEST_SIZE div 4)
      (c1, [0x61], snd r) = Inr (c2, [], snd r)" "size_c c2 = 1" "totalSize c2 = 65" by blast
  have u: "md5Update example_periph full_md5 [0x61] idle_hw = Inr (c2, snd r)"
    by (simp add: md5Update_def update_loop.simps[of _ _ _ _ "[0x61]"] update_loop.simps[of _ _ _ _ "[]"] i1 c2)
  have b: "update_loop_bounded 2 example_periph HASH_CTRL_ALGSEL_MD5 (MD5_DIGEST_SIZE div 4) full_md5 [0x61] idle_hw
     = Some (Inr (c2, snd r))"
    by (simp add: numeral_2_eq_2 i1 c2)
  show ?thesis by (simp add: u b session_of_def c2)
qed

end
